theory Spec2Isabelle
  imports Main
begin

section \<open>JSON values\<close>

text \<open>
  The values that \<^verbatim>\<open>JSON.parse\<close> produces. An object is the list of its own
  properties in property order. A number is the decimal that JavaScript prints for it:
  \<open>JNum n\<close> is the integer \<open>n\<close>, and \<open>JDec m f\<close> is \<open>m / 10 ^ f\<close>, a number with \<open>f\<close>
  digits after the point. A string is the sequence of its bytes in UTF-8.
\<close>

datatype json =
    JNull
  | JBool bool
  | JNum int
  | JDec int nat
  | JStr string
  | JArr "json list"
  | JObj "(string \<times> json) list"

text \<open>\<^verbatim>\<open>data[key]\<close> on a parsed object, for a key that \<^verbatim>\<open>Object.prototype\<close> does not
  define: the own property, or undefined (\<open>None\<close>). A value that is not an object has no
  such property.\<close>

fun field :: "json \<Rightarrow> string \<Rightarrow> json option" where
  "field (JObj kvs) k = map_of kvs k"
| "field _ k = None"

section \<open>JSON text: \<^verbatim>\<open>JSON.stringify\<close> and \<^verbatim>\<open>JSON.parse\<close>\<close>

definition dquote :: char where "dquote = CHR 0x22"
definition backslash :: char where "backslash = CHR 0x5C"
definition newline :: char where "newline = CHR 0x0A"

definition digit_char :: "nat \<Rightarrow> char" where
  "digit_char d = ''0123456789'' ! d"

fun digits :: "nat \<Rightarrow> string" where
  "digits n =
     (if n < 10 then [digit_char n]
      else digits (n div 10) @ [digit_char (n mod 10)])"

declare digits.simps [simp del]

text \<open>The decimal text of an integral number, as a template literal and
  \<^verbatim>\<open>toString()\<close> give it.\<close>

definition show_int :: "int \<Rightarrow> string" where
  "show_int i = (if i < 0 then CHR ''-'' # digits (nat (- i)) else digits (nat i))"

text \<open>A decimal without the zeros at the end of its fraction: \<open>(m, f)\<close> stands for
  \<open>m / 10 ^ f\<close>.\<close>

fun strip_zeros :: "int \<Rightarrow> nat \<Rightarrow> int \<times> nat" where
  "strip_zeros m 0 = (m, 0)"
| "strip_zeros m (Suc f) = (if m mod 10 = 0 then strip_zeros (m div 10) f else (m, Suc f))"

text \<open>The number \<open>n\<close> written with exactly \<open>f\<close> digits.\<close>

fun fraction :: "nat \<Rightarrow> nat \<Rightarrow> string" where
  "fraction 0 n = []"
| "fraction (Suc f) n = fraction f (n div 10) @ [digit_char (n mod 10)]"

text \<open>The text of a number with a fraction: the sign, the integral part, the point and the
  digits of the fraction.\<close>

definition show_decimal :: "int \<Rightarrow> nat \<Rightarrow> string" where
  "show_decimal m f =
     (if m < 0 then ''-'' else []) @ digits (nat \<bar>m\<bar> div 10 ^ f) @ ''.'' @
     fraction f (nat \<bar>m\<bar> mod 10 ^ f)"

definition show_number :: "int \<Rightarrow> nat \<Rightarrow> string" where
  "show_number m f =
     (case strip_zeros m f of
        (n, 0) \<Rightarrow> show_int n
      | (n, Suc g) \<Rightarrow> show_decimal n (Suc g))"

definition hex_digit :: "nat \<Rightarrow> char" where
  "hex_digit n = ''0123456789abcdef'' ! n"

text \<open>\<^verbatim>\<open>QuoteJSONString\<close>: the quote and the backslash are escaped, the control characters
  have their short escape or \<^verbatim>\<open>\u00xx\<close>, every other byte stands for itself (a string
  with an unpaired surrogate, which would be escaped, has no UTF-8 form).\<close>

definition escape_char :: "char \<Rightarrow> string" where
  "escape_char c =
     (if c = dquote then [backslash, dquote]
      else if c = backslash then [backslash, backslash]
      else if c = CHR 0x08 then [backslash, CHR ''b'']
      else if c = CHR 0x0C then [backslash, CHR ''f'']
      else if c = CHR 0x0A then [backslash, CHR ''n'']
      else if c = CHR 0x0D then [backslash, CHR ''r'']
      else if c = CHR 0x09 then [backslash, CHR ''t'']
      else if (of_char c :: nat) < 32 then
        [backslash, CHR ''u'', CHR ''0'', CHR ''0'',
         hex_digit (of_char c div 16), hex_digit (of_char c mod 16)]
      else [c])"

definition quote :: "string \<Rightarrow> string" where
  "quote s = dquote # concat (map escape_char s) @ [dquote]"

fun join :: "string \<Rightarrow> string list \<Rightarrow> string" where
  "join sep [] = []"
| "join sep [x] = x"
| "join sep (x # y # ys) = x @ sep @ join sep (y # ys)"

text \<open>An array or an object around its serialized parts: \<open>gap\<close> is the indentation unit
  (empty for the compact form), \<open>ind\<close> the indentation of the enclosing line.\<close>

definition wrap :: "string \<Rightarrow> string \<Rightarrow> string \<Rightarrow> string \<Rightarrow> string list \<Rightarrow> string" where
  "wrap gap ind l r parts =
     (if parts = [] then l @ r
      else if gap = [] then l @ join '','' parts @ r
      else l @ [newline] @ ind @ gap @
           join ('','' @ [newline] @ ind @ gap) parts @ [newline] @ ind @ r)"

fun serialize :: "string \<Rightarrow> string \<Rightarrow> json \<Rightarrow> string" where
  "serialize gap ind JNull = ''null''"
| "serialize gap ind (JBool b) = (if b then ''true'' else ''false'')"
| "serialize gap ind (JNum n) = show_int n"
| "serialize gap ind (JDec m f) = show_number m f"
| "serialize gap ind (JStr s) = quote s"
| "serialize gap ind (JArr xs) =
     wrap gap ind ''['' '']'' (map (serialize gap (ind @ gap)) xs)"
| "serialize gap ind (JObj kvs) =
     wrap gap ind ''{'' ''}''
       (map (\<lambda>(k, v). quote k @ '':'' @ (if gap = [] then [] else '' '') @
                          serialize gap (ind @ gap) v) kvs)"

text \<open>\<^verbatim>\<open>JSON.stringify(value, null, space)\<close> for a number \<open>space\<close>: the gap is that many
  spaces, at most ten.\<close>

definition JSON_stringify :: "json \<Rightarrow> nat \<Rightarrow> string" where
  "JSON_stringify v space = serialize (replicate (min space 10) CHR '' '') [] v"

subsection \<open>The lexer\<close>

datatype token =
    LBrace | RBrace | LBracket | RBracket | Colon | Comma
  | TString string | TNumber int | TDecimal int nat | TTrue | TFalse | TNull

text \<open>The lexer reads one character at a time. Its modes: between tokens; inside a string
  literal (the bytes so far, last first); after a backslash; inside \<^verbatim>\<open>\uXXXX\<close>; the same
  three after the escape of a high surrogate, which waits for its low surrogate; after a
  minus sign; after a leading zero; inside the digits of the integral part (negative?,
  magnitude); after the point; inside the fraction (negative?, all digits so far, number of
  digits of the fraction); after \<^verbatim>\<open>e\<close>; after the sign of the exponent; inside the exponent
  (its sign and magnitude); inside \<^verbatim>\<open>true\<close>, \<^verbatim>\<open>false\<close> or \<^verbatim>\<open>null\<close> (the characters still
  expected).\<close>

datatype lex_mode =
    Ready
  | InString string
  | InEscape string
  | InUnicode string "nat list"
  | InHigh string nat
  | InHighEscape string nat
  | InHighUnicode string nat "nat list"
  | InMinus
  | InZero bool
  | InDigits bool int
  | InPoint bool int
  | InFraction bool int nat
  | InExponent bool int nat
  | InExpSign bool int nat bool
  | InExpDigits bool int nat bool nat
  | InLiteral string token

definition is_ws :: "char \<Rightarrow> bool" where
  "is_ws c = (c = CHR '' '' \<or> c = CHR 0x09 \<or> c = CHR 0x0A \<or> c = CHR 0x0D)"

definition digit_val :: "char \<Rightarrow> nat option" where
  "digit_val c =
     (if (48::nat) \<le> of_char c \<and> (of_char c :: nat) \<le> 57 then Some (of_char c - 48)
      else None)"

definition hex_val :: "char \<Rightarrow> nat option" where
  "hex_val c =
     (let n = (of_char c :: nat) in
      if 48 \<le> n \<and> n \<le> 57 then Some (n - 48)
      else if 97 \<le> n \<and> n \<le> 102 then Some (n - 87)
      else if 65 \<le> n \<and> n \<le> 70 then Some (n - 55)
      else None)"

definition ready :: "char \<Rightarrow> token list \<Rightarrow> (lex_mode \<times> token list) option" where
  "ready c toks =
     (if is_ws c then Some (Ready, toks)
      else if c = CHR ''{'' then Some (Ready, LBrace # toks)
      else if c = CHR ''}'' then Some (Ready, RBrace # toks)
      else if c = CHR ''['' then Some (Ready, LBracket # toks)
      else if c = CHR '']'' then Some (Ready, RBracket # toks)
      else if c = CHR '':'' then Some (Ready, Colon # toks)
      else if c = CHR '','' then Some (Ready, Comma # toks)
      else if c = dquote then Some (InString [], toks)
      else if c = CHR ''-'' then Some (InMinus, toks)
      else if c = CHR ''0'' then Some (InZero False, toks)
      else if c = CHR ''t'' then Some (InLiteral ''rue'' TTrue, toks)
      else if c = CHR ''f'' then Some (InLiteral ''alse'' TFalse, toks)
      else if c = CHR ''n'' then Some (InLiteral ''ull'' TNull, toks)
      else case digit_val c of
             Some d \<Rightarrow> Some (InDigits False (int d), toks)
           | None \<Rightarrow> None)"

text \<open>The token of the number \<open>m / 10 ^ f\<close>, and of a literal with its sign, its digits,
  the number of digits of its fraction and its exponent.\<close>

definition number_token :: "int \<Rightarrow> nat \<Rightarrow> token" where
  "number_token m f =
     (case strip_zeros m f of
        (n, 0) \<Rightarrow> TNumber n
      | (n, Suc g) \<Rightarrow> TDecimal n (Suc g))"

definition scaled :: "bool \<Rightarrow> int \<Rightarrow> nat \<Rightarrow> int \<Rightarrow> token" where
  "scaled neg n f ex =
     (let m = (if neg then - n else n); p = ex - int f in
      if 0 \<le> p then TNumber (m * 10 ^ nat p) else number_token m (nat (- p)))"

text \<open>The UTF-8 bytes of a code point (of a surrogate that has no partner, the three bytes
  of the same scheme), and the code point of a surrogate pair.\<close>

definition utf8 :: "nat \<Rightarrow> string" where
  "utf8 n =
     (if n < 128 then [char_of n]
      else if n < 2048 then [char_of (192 + n div 64), char_of (128 + n mod 64)]
      else if n < 65536 then
        [char_of (224 + n div 4096), char_of (128 + n div 64 mod 64), char_of (128 + n mod 64)]
      else
        [char_of (240 + n div 262144), char_of (128 + n div 4096 mod 64),
         char_of (128 + n div 64 mod 64), char_of (128 + n mod 64)])"

definition high_surrogate :: "nat \<Rightarrow> bool" where
  "high_surrogate n = (55296 \<le> n \<and> n < 56320)"

definition low_surrogate :: "nat \<Rightarrow> bool" where
  "low_surrogate n = (56320 \<le> n \<and> n < 57344)"

definition pair :: "nat \<Rightarrow> nat \<Rightarrow> nat" where
  "pair hi lo = 65536 + (hi - 55296) * 1024 + (lo - 56320)"

definition code_unit :: "nat list \<Rightarrow> nat" where
  "code_unit ds = foldl (\<lambda>a h. 16 * a + h) 0 ds"

text \<open>One character inside a string literal, and one after a backslash.\<close>

definition in_string :: "string \<Rightarrow> token list \<Rightarrow> char \<Rightarrow> (lex_mode \<times> token list) option" where
  "in_string acc toks c =
     (if c = dquote then Some (Ready, TString (rev acc) # toks)
      else if c = backslash then Some (InEscape acc, toks)
      else if (of_char c :: nat) < 32 then None
      else Some (InString (c # acc), toks))"

definition in_escape :: "string \<Rightarrow> token list \<Rightarrow> char \<Rightarrow> (lex_mode \<times> token list) option" where
  "in_escape acc toks c =
     (if c = dquote then Some (InString (dquote # acc), toks)
      else if c = backslash then Some (InString (backslash # acc), toks)
      else if c = CHR ''/'' then Some (InString (CHR ''/'' # acc), toks)
      else if c = CHR ''b'' then Some (InString (CHR 0x08 # acc), toks)
      else if c = CHR ''f'' then Some (InString (CHR 0x0C # acc), toks)
      else if c = CHR ''n'' then Some (InString (CHR 0x0A # acc), toks)
      else if c = CHR ''r'' then Some (InString (CHR 0x0D # acc), toks)
      else if c = CHR ''t'' then Some (InString (CHR 0x09 # acc), toks)
      else if c = CHR ''u'' then Some (InUnicode acc [], toks)
      else None)"

definition exponent_mark :: "char \<Rightarrow> bool" where
  "exponent_mark c = (c = CHR ''e'' \<or> c = CHR ''E'')"

text \<open>One character. \<open>None\<close> is the \<^verbatim>\<open>SyntaxError\<close>. The tokens are kept last first.\<close>

fun lex_step :: "lex_mode \<times> token list \<Rightarrow> char \<Rightarrow> (lex_mode \<times> token list) option" where
  "lex_step (Ready, toks) c = ready c toks"
| "lex_step (InString acc, toks) c = in_string acc toks c"
| "lex_step (InEscape acc, toks) c = in_escape acc toks c"
| "lex_step (InUnicode acc ds, toks) c =
     (case hex_val c of
        None \<Rightarrow> None
      | Some d \<Rightarrow>
          if length ds < 3 then Some (InUnicode acc (ds @ [d]), toks)
          else
            (let n = code_unit (ds @ [d]) in
             if high_surrogate n then Some (InHigh acc n, toks)
             else Some (InString (rev (utf8 n) @ acc), toks)))"
| "lex_step (InHigh acc hi, toks) c =
     (if c = backslash then Some (InHighEscape acc hi, toks)
      else in_string (rev (utf8 hi) @ acc) toks c)"
| "lex_step (InHighEscape acc hi, toks) c =
     (if c = CHR ''u'' then Some (InHighUnicode acc hi [], toks)
      else in_escape (rev (utf8 hi) @ acc) toks c)"
| "lex_step (InHighUnicode acc hi ds, toks) c =
     (case hex_val c of
        None \<Rightarrow> None
      | Some d \<Rightarrow>
          if length ds < 3 then Some (InHighUnicode acc hi (ds @ [d]), toks)
          else
            (let n = code_unit (ds @ [d]) in
             if low_surrogate n then Some (InString (rev (utf8 (pair hi n)) @ acc), toks)
             else if high_surrogate n then Some (InHigh (rev (utf8 hi) @ acc) n, toks)
             else Some (InString (rev (utf8 n) @ rev (utf8 hi) @ acc), toks)))"
| "lex_step (InMinus, toks) c =
     (if c = CHR ''0'' then Some (InZero True, toks)
      else case digit_val c of
             Some d \<Rightarrow> Some (InDigits True (int d), toks)
           | None \<Rightarrow> None)"
| "lex_step (InZero neg, toks) c =
     (if digit_val c \<noteq> None then None
      else if c = CHR ''.'' then Some (InPoint neg 0, toks)
      else if exponent_mark c then Some (InExponent neg 0 0, toks)
      else ready c (TNumber 0 # toks))"
| "lex_step (InDigits neg n, toks) c =
     (case digit_val c of
        Some d \<Rightarrow> Some (InDigits neg (10 * n + int d), toks)
      | None \<Rightarrow>
          if c = CHR ''.'' then Some (InPoint neg n, toks)
          else if exponent_mark c then Some (InExponent neg n 0, toks)
          else ready c (TNumber (if neg then - n else n) # toks))"
| "lex_step (InPoint neg n, toks) c =
     (case digit_val c of
        Some d \<Rightarrow> Some (InFraction neg (10 * n + int d) 1, toks)
      | None \<Rightarrow> None)"
| "lex_step (InFraction neg n f, toks) c =
     (case digit_val c of
        Some d \<Rightarrow> Some (InFraction neg (10 * n + int d) (Suc f), toks)
      | None \<Rightarrow>
          if exponent_mark c then Some (InExponent neg n f, toks)
          else ready c (scaled neg n f 0 # toks))"
| "lex_step (InExponent neg n f, toks) c =
     (if c = CHR ''+'' then Some (InExpSign neg n f False, toks)
      else if c = CHR ''-'' then Some (InExpSign neg n f True, toks)
      else case digit_val c of
             Some d \<Rightarrow> Some (InExpDigits neg n f False d, toks)
           | None \<Rightarrow> None)"
| "lex_step (InExpSign neg n f eneg, toks) c =
     (case digit_val c of
        Some d \<Rightarrow> Some (InExpDigits neg n f eneg d, toks)
      | None \<Rightarrow> None)"
| "lex_step (InExpDigits neg n f eneg e, toks) c =
     (case digit_val c of
        Some d \<Rightarrow> Some (InExpDigits neg n f eneg (10 * e + d), toks)
      | None \<Rightarrow> ready c (scaled neg n f (if eneg then - int e else int e) # toks))"
| "lex_step (InLiteral rest tok, toks) c =
     (case rest of
        [] \<Rightarrow> None
      | r # rs \<Rightarrow>
          if c \<noteq> r then None
          else if rs = [] then Some (Ready, tok # toks)
          else Some (InLiteral rs tok, toks))"

fun lex_finish :: "lex_mode \<times> token list \<Rightarrow> token list option" where
  "lex_finish (Ready, toks) = Some (rev toks)"
| "lex_finish (InZero neg, toks) = Some (rev (TNumber 0 # toks))"
| "lex_finish (InDigits neg n, toks) =
     Some (rev (TNumber (if neg then - n else n) # toks))"
| "lex_finish (InFraction neg n f, toks) = Some (rev (scaled neg n f 0 # toks))"
| "lex_finish (InExpDigits neg n f eneg e, toks) =
     Some (rev (scaled neg n f (if eneg then - int e else int e) # toks))"
| "lex_finish _ = None"

fun lex_all :: "lex_mode \<times> token list \<Rightarrow> string \<Rightarrow> token list option" where
  "lex_all st [] = lex_finish st"
| "lex_all st (c # cs) =
     (case lex_step st c of
        None \<Rightarrow> None
      | Some st' \<Rightarrow> lex_all st' cs)"

subsection \<open>The parser\<close>

text \<open>The parser reads one token at a time and keeps the open arrays and objects on a
  stack: an array with its elements so far, an object with its members so far and the key
  whose value is being read (both last first).\<close>

datatype frame =
    ArrFrame "json list"
  | ObjFrame "(string \<times> json) list" string

datatype parse_state =
    PValue "frame list"
  | PFirstElem "frame list"
  | PAfterElem "json list" "frame list"
  | PFirstKey "frame list"
  | PKey "(string \<times> json) list" "frame list"
  | PColon "(string \<times> json) list" string "frame list"
  | PAfterMember "(string \<times> json) list" "frame list"
  | PDone json

text \<open>A member whose key the object already has replaces that member's value, in its
  place; a new key goes last.\<close>

fun set_property :: "(string \<times> json) list \<Rightarrow> string \<Rightarrow> json \<Rightarrow> (string \<times> json) list" where
  "set_property [] k v = [(k, v)]"
| "set_property ((k', v') # kvs) k v =
     (if k' = k then (k, v) # kvs else (k', v') # set_property kvs k v)"

text \<open>The order in which an object lists its own properties: first the keys that are array
  indices (the decimal text, without a leading zero, of a number below 4294967295), in
  ascending order, then the other keys in the order of their creation.\<close>

definition index_value :: "string \<Rightarrow> int" where
  "index_value k = foldl (\<lambda>a c. 10 * a + int (of_char c - 48)) 0 k"

definition array_index :: "string \<Rightarrow> bool" where
  "array_index k =
     (k \<noteq> [] \<and> list_all (\<lambda>c. digit_val c \<noteq> None) k \<and> (length k = 1 \<or> hd k \<noteq> CHR ''0'') \<and>
      index_value k < 4294967295)"

definition property_order :: "(string \<times> json) list \<Rightarrow> (string \<times> json) list" where
  "property_order kvs =
     sort_key (\<lambda>(k, v). index_value k) (filter (\<lambda>(k, v). array_index k) kvs) @
     filter (\<lambda>(k, v). \<not> array_index k) kvs"

definition make_object :: "(string \<times> json) list \<Rightarrow> json" where
  "make_object members =
     JObj (property_order (foldl (\<lambda>obj (k, v). set_property obj k v) [] members))"

fun complete :: "json \<Rightarrow> frame list \<Rightarrow> parse_state" where
  "complete v [] = PDone v"
| "complete v (ArrFrame xs # st) = PAfterElem (v # xs) st"
| "complete v (ObjFrame kvs k # st) = PAfterMember ((k, v) # kvs) st"

fun begin_value :: "token \<Rightarrow> frame list \<Rightarrow> parse_state option" where
  "begin_value (TString s) st = Some (complete (JStr s) st)"
| "begin_value (TNumber n) st = Some (complete (JNum n) st)"
| "begin_value (TDecimal m f) st = Some (complete (JDec m f) st)"
| "begin_value TTrue st = Some (complete (JBool True) st)"
| "begin_value TFalse st = Some (complete (JBool False) st)"
| "begin_value TNull st = Some (complete JNull st)"
| "begin_value LBracket st = Some (PFirstElem st)"
| "begin_value LBrace st = Some (PFirstKey st)"
| "begin_value _ st = None"

fun parse_step :: "parse_state \<Rightarrow> token \<Rightarrow> parse_state option" where
  "parse_step (PValue st) tok = begin_value tok st"
| "parse_step (PFirstElem st) tok =
     (if tok = RBracket then Some (complete (JArr []) st)
      else begin_value tok (ArrFrame [] # st))"
| "parse_step (PAfterElem xs st) tok =
     (if tok = Comma then Some (PValue (ArrFrame xs # st))
      else if tok = RBracket then Some (complete (JArr (rev xs)) st)
      else None)"
| "parse_step (PFirstKey st) tok =
     (case tok of
        RBrace \<Rightarrow> Some (complete (JObj []) st)
      | TString k \<Rightarrow> Some (PColon [] k st)
      | _ \<Rightarrow> None)"
| "parse_step (PKey kvs st) tok =
     (case tok of
        TString k \<Rightarrow> Some (PColon kvs k st)
      | _ \<Rightarrow> None)"
| "parse_step (PColon kvs k st) tok =
     (if tok = Colon then Some (PValue (ObjFrame kvs k # st)) else None)"
| "parse_step (PAfterMember kvs st) tok =
     (if tok = Comma then Some (PKey kvs st)
      else if tok = RBrace then Some (complete (make_object (rev kvs)) st)
      else None)"
| "parse_step (PDone v) tok = None"

fun parse_all :: "parse_state \<Rightarrow> token list \<Rightarrow> json option" where
  "parse_all (PDone v) [] = Some v"
| "parse_all st [] = None"
| "parse_all st (t # ts) =
     (case parse_step st t of
        None \<Rightarrow> None
      | Some st' \<Rightarrow> parse_all st' ts)"

text \<open>What a JavaScript function throws, as a value.\<close>

datatype js_error = SyntaxError | HttpError nat | NetworkError

text \<open>\<^verbatim>\<open>JSON.parse(text)\<close>: the value, or the \<^verbatim>\<open>SyntaxError\<close> it throws.\<close>

definition JSON_parse :: "string \<Rightarrow> js_error + json" where
  "JSON_parse text =
     (case lex_all (Ready, []) text of
        None \<Rightarrow> Inl SyntaxError
      | Some toks \<Rightarrow>
          (case parse_all (PValue []) toks of
             None \<Rightarrow> Inl SyntaxError
           | Some v \<Rightarrow> Inr v))"

section \<open>The validator (the validation script)\<close>

text \<open>
  The rule set is a JSON Schema, compiled by Ajv with \<^verbatim>\<open>allErrors: true\<close>. A schema is the
  list of its keywords; only the keywords that the rule set uses are modelled.
\<close>

datatype keyword =
    Type string
  | Required "string list"
  | Properties "(string \<times> keyword list) list"
  | OneOf "keyword list list"
  | Const json

datatype ajv_error =
    TypeError string          \<comment> \<open>must be object / string / array\<close>
  | RequiredError string      \<comment> \<open>must have required property ...\<close>
  | ConstError                \<comment> \<open>must be equal to constant\<close>
  | OneOfError                \<comment> \<open>must match exactly one schema in oneOf\<close>

fun has_type :: "string \<Rightarrow> json \<Rightarrow> bool" where
  "has_type t JNull = (t = ''null'')"
| "has_type t (JBool b) = (t = ''boolean'')"
| "has_type t (JNum n) = (t = ''number'' \<or> t = ''integer'')"
| "has_type t (JDec m f) = (t = ''number'' \<or> t = ''integer'' \<and> snd (strip_zeros m f) = 0)"
| "has_type t (JStr s) = (t = ''string'')"
| "has_type t (JArr xs) = (t = ''array'')"
| "has_type t (JObj kvs) = (t = ''object'')"

text \<open>
  The errors of one keyword on a value. \<^verbatim>\<open>required\<close> and \<^verbatim>\<open>properties\<close> apply to objects
  only and pass on every other value; \<^verbatim>\<open>properties\<close> checks a property only when the value
  has it; \<^verbatim>\<open>oneOf\<close> passes when exactly one branch has no error, and otherwise reports the
  branches' errors and its own.
\<close>

fun check :: "keyword \<Rightarrow> json \<Rightarrow> ajv_error list" where
  "check (Type t) d = (if has_type t d then [] else [TypeError t])"
| "check (Required ks) d =
     (case d of
        JObj kvs \<Rightarrow> map RequiredError (filter (\<lambda>k. map_of kvs k = None) ks)
      | _ \<Rightarrow> [])"
| "check (Properties ps) d =
     (case d of
        JObj kvs \<Rightarrow>
          concat (map (\<lambda>(k, s).
            case map_of kvs k of
              None \<Rightarrow> []
            | Some v \<Rightarrow> concat (map (\<lambda>kw. check kw v) s)) ps)
      | _ \<Rightarrow> [])"
| "check (OneOf ss) d =
     (let errs = map (\<lambda>s. concat (map (\<lambda>kw. check kw d) s)) ss in
      if length (filter (\<lambda>e. e = []) errs) = 1 then []
      else concat errs @ [OneOfError])"
| "check (Const c) d = (if d = c then [] else [ConstError])"

definition compile :: "keyword list \<Rightarrow> json \<Rightarrow> ajv_error list" where
  "compile s d = concat (map (\<lambda>kw. check kw d) s)"

definition schemaOrgValidation :: "keyword list" where
  "schemaOrgValidation =
     [Type ''object'',
      Required [''@context''],
      Properties
        [(''@context'',
            [OneOf [[Const (JStr ''https://schema.org'')],
                    [Const (JStr ''http://schema.org'')]]]),
         (''@type'', [Type ''string'']),
         (''@graph'', [Type ''array''])]]"

text \<open>\<^verbatim>\<open>validate.errors\<close> after \<^verbatim>\<open>validate(schema)\<close>; the document is valid when there
  is none.\<close>

definition validate_errors :: "json \<Rightarrow> ajv_error list" where
  "validate_errors = compile schemaOrgValidation"

definition validate :: "json \<Rightarrow> bool" where
  "validate d = (validate_errors d = [])"

text \<open>One scanned file's line of the report.\<close>

datatype report =
    Passed string
  | Failed string "ajv_error list"
  | InvalidJSON string

definition ends_with :: "string \<Rightarrow> string \<Rightarrow> bool" where
  "ends_with s suffix =
     (length suffix \<le> length s \<and> drop (length s - length suffix) s = suffix)"

text \<open>The \<^verbatim>\<open>try\<close> block in the body of the \<^verbatim>\<open>forEach\<close>: \<^verbatim>\<open>hasErrors\<close> and the lines
  printed so far, then one file with the content that was read. The \<^verbatim>\<open>catch\<close> turns the
  parse error into a line of the report.\<close>

fun validate_file :: "bool \<times> report list \<Rightarrow> string \<times> string \<Rightarrow> bool \<times> report list" where
  "validate_file (hasErrors, out) (file, content) =
     (case JSON_parse content of
        Inl error \<Rightarrow> (True, out @ [InvalidJSON file])
      | Inr schema \<Rightarrow>
          if validate schema then (hasErrors, out @ [Passed file])
          else (True, out @ [Failed file (validate_errors schema)]))"

text \<open>The \<^verbatim>\<open>forEach\<close> over the files. An entry of the directory is its name and what
  \<^verbatim>\<open>readFileSync\<close> gives for it: the content, or \<open>None\<close> when the call throws (the entry is a
  directory, or a file that cannot be read). The call stands before the \<^verbatim>\<open>try\<close>, so its
  exception is not caught: the run ends there, with the lines printed so far and the exit
  status 1 of an uncaught exception. Otherwise the run ends after the last file, with
  \<^verbatim>\<open>process.exit(1)\<close> when \<^verbatim>\<open>hasErrors\<close> is set and with status 0 when it is not.\<close>

fun scan_files :: "bool \<times> report list \<Rightarrow> (string \<times> string option) list \<Rightarrow> report list \<times> nat" where
  "scan_files (hasErrors, out) [] = (out, if hasErrors then 1 else 0)"
| "scan_files (hasErrors, out) ((file, None) # files) = (out, 1)"
| "scan_files (hasErrors, out) ((file, Some content) # files) =
     scan_files (validate_file (hasErrors, out) (file, content)) files"

text \<open>\<^verbatim>\<open>validateSchemas\<close> on the \<^verbatim>\<open>schemas\<close> directory, given as its entries in listing
  order: the report and the exit status of the process.\<close>

definition validateSchemas :: "(string \<times> string option) list \<Rightarrow> report list \<times> nat" where
  "validateSchemas dir =
     scan_files (False, []) (filter (\<lambda>(file, content). ends_with file ''.json'') dir)"

section \<open>The loader (loader.js)\<close>

subsection \<open>The page and the clock\<close>

datatype element =
  Element (localName: string) (attributes: "(string \<times> string) list")
    (textContent: string) (childNodes: "element list")

text \<open>What a run reads and changes: the location, the document (title, language, the
  children of \<^verbatim>\<open>head\<close> and of \<^verbatim>\<open>body\<close>) and three readings of the clock:
  \<^verbatim>\<open>Date.now()\<close>, \<^verbatim>\<open>new Date().toISOString()\<close> (UTC) and \<^verbatim>\<open>new Date().getFullYear()\<close>
  (local time).\<close>

record window =
  hostname :: string
  pathname :: string
  href :: string
  title :: string
  lang :: string
  head :: "element list"
  body :: "element list"
  now :: int
  isoString :: string
  fullYear :: int

record config =
  version :: string
  githubRepo :: string
  branch :: string
  cdnUrl :: string
  cacheTime :: int

definition CONFIG :: config where
  "CONFIG =
     \<lparr>version = ''1.0.0'',
      githubRepo = ''Joao-Aquino/recostseg-schemas'',
      branch = ''main'',
      cdnUrl = ''https://cdn.jsdelivr.net/gh/'',
      cacheTime = 3600\<rparr>"

definition starts_with :: "string \<Rightarrow> string \<Rightarrow> bool" where
  "starts_with s p = (take (length p) s = p)"

fun str_includes :: "string \<Rightarrow> string \<Rightarrow> bool" where
  "str_includes [] sub = (sub = [])"
| "str_includes (c # cs) sub = (starts_with (c # cs) sub \<or> str_includes cs sub)"

text \<open>\<^verbatim>\<open>CONFIG.debug\<close>, which the source computes from the host name.\<close>

definition debug :: "window \<Rightarrow> bool" where
  "debug w = (str_includes (hostname w) ''webflow.io'' \<or> hostname w = ''localhost'')"

subsection \<open>Path Resolver\<close>

definition SCHEMA_MAP :: "(string \<times> string) list" where
  "SCHEMA_MAP =
     [(''/'', ''homepage.json''),
      (''/index'', ''homepage.json''),
      (''/services'', ''services.json''),
      (''/services/rapid-report'', ''rapid-report.json''),
      (''/services/engineered-study'', ''engineered-study.json''),
      (''/free-proposal'', ''free-proposal.json''),
      (''/faq'', ''faq.json''),
      (''/resources'', ''resources.json''),
      (''/contact'', ''contact.json''),
      (''/about'', ''about.json'')]"

text \<open>Each pattern of \<^verbatim>\<open>PATTERN_MAP\<close> is \<^verbatim>\<open>^\<close> and a literal text: \<^verbatim>\<open>pattern.test(path)\<close> is
  true when the path starts with that text. The rule keeps the text.\<close>

record rule =
  pattern :: string
  schema :: string

definition PATTERN_MAP :: "rule list" where
  "PATTERN_MAP =
     [\<lparr>pattern = ''/post/'', schema = ''blog-post.json''\<rparr>,
      \<lparr>pattern = ''/case-study/'', schema = ''case-study.json''\<rparr>,
      \<lparr>pattern = ''/state/'', schema = ''location.json''\<rparr>]"

definition test :: "string \<Rightarrow> string \<Rightarrow> bool" where
  "test pat path = starts_with path pat"

text \<open>\<^verbatim>\<open>SCHEMA_MAP\<close> is an object literal, so \<^verbatim>\<open>SCHEMA_MAP[path]\<close> also finds what the
  object inherits from \<^verbatim>\<open>Object.prototype\<close>: functions, and for \<^verbatim>\<open>__proto__\<close> the prototype
  itself. All of them are truthy, as the file names are.\<close>

definition Object_prototype :: "string list" where
  "Object_prototype =
     [''constructor'', ''hasOwnProperty'', ''isPrototypeOf'', ''propertyIsEnumerable'',
      ''toLocaleString'', ''toString'', ''valueOf'', ''__proto__'',
      ''__defineGetter__'', ''__defineSetter__'', ''__lookupGetter__'',
      ''__lookupSetter__'']"

datatype js_value =
    Str string
  | Inherited string    \<comment> \<open>the value of that property of \<^verbatim>\<open>Object.prototype\<close>\<close>

definition get_property :: "(string \<times> string) list \<Rightarrow> string \<Rightarrow> js_value option" where
  "get_property obj key =
     (case map_of obj key of
        Some v \<Rightarrow> Some (Str v)
      | None \<Rightarrow> if key \<in> set Object_prototype then Some (Inherited key) else None)"

text \<open>\<^verbatim>\<open>pathname.replace(/\/$/, '') || '/'\<close>\<close>

definition normalize :: "string \<Rightarrow> string" where
  "normalize p =
     (let stripped = (if p \<noteq> [] \<and> last p = CHR ''/'' then butlast p else p)
      in if stripped = [] then ''/'' else stripped)"

text \<open>\<^verbatim>\<open>getSchemaFile()\<close>, as a function of \<^verbatim>\<open>window.location.pathname\<close>.\<close>

definition getSchemaFile :: "string \<Rightarrow> js_value" where
  "getSchemaFile p =
     (let path = normalize p in
      case get_property SCHEMA_MAP path of
        Some v \<Rightarrow> v
      | None \<Rightarrow>
          (case find (\<lambda>r. test (pattern r) path) PATTERN_MAP of
             Some r \<Rightarrow> Str (schema r)
           | None \<Rightarrow> Str ''default.json''))"

subsection \<open>Cache bucket and URL\<close>

text \<open>\<^verbatim>\<open>buildSchemaUrl(filename)\<close> at \<^verbatim>\<open>Date.now() = t\<close>. \<^verbatim>\<open>Math.floor\<close> of the quotient of
  two integers is the floored integer division.\<close>

definition buildSchemaUrl :: "string \<Rightarrow> int \<Rightarrow> string" where
  "buildSchemaUrl filename t =
     (let timestamp = t div (cacheTime CONFIG * 1000) in
      cdnUrl CONFIG @ githubRepo CONFIG @ ''@'' @ branch CONFIG @ ''/schemas/'' @
      filename @ ''?t='' @ show_int timestamp)"

subsection \<open>Metadata Extractor\<close>

fun descendants :: "element list \<Rightarrow> element list" where
  "descendants [] = []"
| "descendants (Element t as x cs # es) =
     Element t as x cs # descendants cs @ descendants es"

text \<open>The elements of the document, in document order.\<close>

definition elements :: "window \<Rightarrow> element list" where
  "elements w = descendants (head w) @ descendants (body w)"

text \<open>\<^verbatim>\<open>document.querySelector('tag[attr="value"]')\<close>\<close>

definition selects :: "string \<Rightarrow> string \<Rightarrow> string \<Rightarrow> element \<Rightarrow> bool" where
  "selects tag attr val e = (localName e = tag \<and> map_of (attributes e) attr = Some val)"

definition querySelector :: "window \<Rightarrow> string \<Rightarrow> string \<Rightarrow> string \<Rightarrow> element option" where
  "querySelector w tag attr val = find (selects tag attr val) (elements w)"

text \<open>\<^verbatim>\<open>element?.content || fallback\<close>: the fallback when there is no such element, and
  when its \<^verbatim>\<open>content\<close> is empty.\<close>

definition content_or :: "element option \<Rightarrow> string \<Rightarrow> string" where
  "content_or e fallback =
     (case e of
        None \<Rightarrow> fallback
      | Some el \<Rightarrow>
          (case map_of (attributes el) ''content'' of
             None \<Rightarrow> fallback
           | Some c \<Rightarrow> if c = [] then fallback else c))"

record metadata =
  url :: string
  page_title :: string
  description :: string
  image :: string
  published :: string
  modified :: string
  author :: string
  language :: string

definition getPageMetadata :: "window \<Rightarrow> metadata" where
  "getPageMetadata w =
     \<lparr>url = href w,
      page_title = title w,
      description = content_or (querySelector w ''meta'' ''name'' ''description'') [],
      image = content_or (querySelector w ''meta'' ''property'' ''og:image'') [],
      published =
        content_or (querySelector w ''meta'' ''property'' ''article:published_time'') [],
      modified = isoString w,
      author = content_or (querySelector w ''meta'' ''name'' ''author'') ''RE Cost Seg'',
      language = (if lang w = [] then ''en-US'' else lang w)\<rparr>"

subsection \<open>Template Processor\<close>

text \<open>The replacement text of \<^verbatim>\<open>String.prototype.replace\<close> is a template: \<^verbatim>\<open>$$\<close> is a
  dollar sign, \<^verbatim>\<open>$&\<close> the matched text, \<^verbatim>\<open>$`\<close> the text before the match and \<^verbatim>\<open>$'\<close> the
  text after it. The patterns have no capture group, so \<^verbatim>\<open>$1\<close> and \<^verbatim>\<open>$<\<close> stay as they
  are.\<close>

fun expand :: "string \<Rightarrow> string \<Rightarrow> string \<Rightarrow> string \<Rightarrow> string" where
  "expand matched pre post [] = []"
| "expand matched pre post [c] = [c]"
| "expand matched pre post (c # d # ds) =
     (if c \<noteq> CHR ''$'' then c # expand matched pre post (d # ds)
      else if d = CHR ''$'' then CHR ''$'' # expand matched pre post ds
      else if d = CHR ''&'' then matched @ expand matched pre post ds
      else if d = CHR 0x60 then pre @ expand matched pre post ds
      else if d = CHR 0x27 then post @ expand matched pre post ds
      else c # expand matched pre post (d # ds))"

text \<open>\<^verbatim>\<open>str.replace(new RegExp(key, 'g'), value)\<close> for a key that, as a pattern, matches
  itself and nothing else (the tokens: braces that open no quantifier, letters and
  underscores). The matches are found from left to right and do not overlap;
  \<open>pre\<close> is the part of \<^verbatim>\<open>str\<close> already passed.\<close>

function scan :: "string \<Rightarrow> string \<Rightarrow> string \<Rightarrow> string \<Rightarrow> string" where
  "scan key val pre rest =
     (if rest = [] then []
      else if key \<noteq> [] \<and> starts_with rest key then
        expand key pre (drop (length key) rest) val @
        scan key val (pre @ key) (drop (length key) rest)
      else hd rest # scan key val (pre @ [hd rest]) (tl rest))"
  by pat_completeness auto
termination
  by (relation "measure (\<lambda>(key, val, pre, rest). length rest)") auto

declare scan.simps [simp del]

definition replace :: "string \<Rightarrow> string \<Rightarrow> string \<Rightarrow> string" where
  "replace str key val = scan key val [] str"

definition replacements :: "window \<Rightarrow> (string \<times> string) list" where
  "replacements w =
     (let metadata = getPageMetadata w in
      [(''{{CURRENT_URL}}'', url metadata),
       (''{{PAGE_TITLE}}'', page_title metadata),
       (''{{META_DESCRIPTION}}'', description metadata),
       (''{{OG_IMAGE}}'', image metadata),
       (''{{PUBLISHED_DATE}}'',
          if published metadata = [] then modified metadata else published metadata),
       (''{{MODIFIED_DATE}}'', modified metadata),
       (''{{AUTHOR}}'', author metadata),
       (''{{LANGUAGE}}'', language metadata),
       (''{{YEAR}}'', show_int (fullYear w))])"

text \<open>The text after the \<^verbatim>\<open>forEach\<close> over the entries, in their order.\<close>

definition substitute :: "window \<Rightarrow> string \<Rightarrow> string" where
  "substitute w schemaString =
     foldl (\<lambda>s (key, val). replace s key val) schemaString (replacements w)"

text \<open>\<^verbatim>\<open>processSchema(schema)\<close>: the document, or the error that \<^verbatim>\<open>JSON.parse\<close> throws.\<close>

definition processSchema :: "window \<Rightarrow> json \<Rightarrow> js_error + json" where
  "processSchema w schemaData = JSON_parse (substitute w (JSON_stringify schemaData 0))"

subsection \<open>Injector\<close>

definition marked :: "element \<Rightarrow> bool" where
  "marked e = selects ''script'' ''data-schema-loader'' ''recostseg'' e"

text \<open>The document after \<^verbatim>\<open>el.remove()\<close> on every element that
  \<^verbatim>\<open>querySelectorAll('script[data-schema-loader="recostseg"]')\<close> lists: they are gone, at
  every depth, with what they contain.\<close>

fun remove_marked :: "element list \<Rightarrow> element list" where
  "remove_marked [] = []"
| "remove_marked (Element t as x cs # es) =
     (if marked (Element t as x cs) then remove_marked es
      else Element t as x (remove_marked cs) # remove_marked es)"

text \<open>The element that \<^verbatim>\<open>injectSchema\<close> creates: the text is indented by two spaces when
  \<^verbatim>\<open>CONFIG.debug\<close> is set.\<close>

definition script_element :: "window \<Rightarrow> json \<Rightarrow> element" where
  "script_element w schemaData =
     Element ''script''
       [(''type'', ''application/ld+json''), (''data-schema-loader'', ''recostseg'')]
       (JSON_stringify schemaData (if debug w then 2 else 0)) []"

definition injectSchema :: "window \<Rightarrow> json \<Rightarrow> window" where
  "injectSchema w schemaData =
     w\<lparr>head := remove_marked (head w) @ [script_element w schemaData],
       body := remove_marked (body w)\<rparr>"

subsection \<open>Loader Orchestrator\<close>

text \<open>What \<^verbatim>\<open>await fetch(schemaUrl)\<close> gives: a rejection, or a response with its status and
  the text of its body.\<close>

datatype fetched =
    Rejected
  | Response nat string

definition ok :: "nat \<Rightarrow> bool" where
  "ok status = (200 \<le> status \<and> status \<le> 299)"

definition fallback :: json where
  "fallback =
     JObj [(''@context'', JStr ''https://schema.org''),
           (''@type'', JStr ''Organization''),
           (''name'', JStr ''RE Cost Seg''),
           (''url'', JStr ''https://www.recostseg.com''),
           (''telephone'', JStr ''+1 (346) 214-6539'')]"

text \<open>The state after a run: the window, the \<^verbatim>\<open>schemaLoaded\<close> events dispatched (file and
  document) and the errors passed to \<^verbatim>\<open>console.error\<close>.\<close>

record run =
  page :: window
  dispatched :: "(js_value \<times> json) list"
  logged :: "js_error list"

text \<open>The \<^verbatim>\<open>try\<close> block: the error thrown, or the processed document.\<close>

definition attempt :: "window \<Rightarrow> fetched \<Rightarrow> js_error + json" where
  "attempt w response =
     (case response of
        Rejected \<Rightarrow> Inl NetworkError
      | Response status text \<Rightarrow>
          if \<not> ok status then Inl (HttpError status)
          else
            (case JSON_parse text of
               Inl error \<Rightarrow> Inl error
             | Inr schemaData \<Rightarrow> processSchema w schemaData))"

definition loadSchema :: "window \<Rightarrow> fetched \<Rightarrow> run" where
  "loadSchema w response =
     (case attempt w response of
        Inr processedSchema \<Rightarrow>
          \<lparr>page = injectSchema w processedSchema,
           dispatched = [(getSchemaFile (pathname w), processedSchema)],
           logged = []\<rparr>
      | Inl error \<Rightarrow>
          \<lparr>page = injectSchema w fallback, dispatched = [], logged = [error]\<rparr>)"

section \<open>The specification's wording, for comparison\<close>

text \<open>The Path Resolver as the specification describes it: strip one trailing slash, the
  empty result being the root; the exact-match table; then the pattern rules in their
  order, the first match winning; then the default file name.\<close>

fun first_match :: "rule list \<Rightarrow> string \<Rightarrow> string option" where
  "first_match [] path = None"
| "first_match (r # rs) path =
     (if take (length (pattern r)) path = pattern r then Some (schema r)
      else first_match rs path)"

definition strip_slash :: "string \<Rightarrow> string" where
  "strip_slash p =
     (case rev p of
        [] \<Rightarrow> ''/''
      | c # r \<Rightarrow> if c = CHR ''/'' then (if r = [] then ''/'' else rev r) else p)"

definition resolve :: "string \<Rightarrow> string" where
  "resolve p =
     (case map_of SCHEMA_MAP (strip_slash p) of
        Some file \<Rightarrow> file
      | None \<Rightarrow>
          (case first_match PATTERN_MAP (strip_slash p) of
             Some file \<Rightarrow> file
           | None \<Rightarrow> ''default.json''))"

text \<open>The number that a decimal text denotes.\<close>

definition read_nat :: "string \<Rightarrow> nat" where
  "read_nat s = foldl (\<lambda>a c. 10 * a + (of_char c - 48)) 0 s"

text \<open>The result for one file as the specification describes it (4.1): invalid with a
  parse-error message when the content does not parse, otherwise the verdict of the rule
  set; and whether that result is a failure.\<close>

definition result_of :: "string \<times> string \<Rightarrow> report" where
  "result_of entry =
     (case JSON_parse (snd entry) of
        Inl error \<Rightarrow> InvalidJSON (fst entry)
      | Inr document \<Rightarrow>
          if validate document then Passed (fst entry)
          else Failed (fst entry) (validate_errors document))"

definition rejected :: "string \<times> string \<Rightarrow> bool" where
  "rejected entry =
     (case JSON_parse (snd entry) of
        Inl error \<Rightarrow> True
      | Inr document \<Rightarrow> \<not> validate document)"

text \<open>The files that are read before the first one that cannot be read.\<close>

fun read_files :: "(string \<times> string option) list \<Rightarrow> (string \<times> string) list" where
  "read_files [] = []"
| "read_files ((file, None) # files) = []"
| "read_files ((file, Some content) # files) = (file, content) # read_files files"

text \<open>The substitution as the specification describes it (4.3): every occurrence of the
  token, from left to right, is replaced by the value as raw text.\<close>

function literal_scan :: "string \<Rightarrow> string \<Rightarrow> string \<Rightarrow> string" where
  "literal_scan key val rest =
     (if rest = [] then []
      else if key \<noteq> [] \<and> starts_with rest key then
        val @ literal_scan key val (drop (length key) rest)
      else hd rest # literal_scan key val (tl rest))"
  by pat_completeness auto
termination
  by (relation "measure (\<lambda>(key, val, rest). length rest)") auto

declare literal_scan.simps [simp del]

definition substitute_literal :: "window \<Rightarrow> string \<Rightarrow> string" where
  "substitute_literal w schemaString =
     foldl (\<lambda>s (key, val). literal_scan key val s) schemaString (replacements w)"

text \<open>The characters that a JSON string literal holds as they are.\<close>

definition plain :: "char \<Rightarrow> bool" where
  "plain c = (c \<noteq> dquote \<and> c \<noteq> backslash \<and> (32::nat) \<le> of_char c)"

text \<open>A text in which a dollar sign is followed by a dollar sign, an ampersand, a backtick
  or an apostrophe: the four sequences that a replacement template does not take
  literally.\<close>

fun has_pattern :: "string \<Rightarrow> bool" where
  "has_pattern (c # d # ds) =
     (c = CHR ''$'' \<and> (d = CHR ''$'' \<or> d = CHR ''&'' \<or> d = CHR 0x60 \<or> d = CHR 0x27) \<or>
      has_pattern (d # ds))"
| "has_pattern ds = False"

text \<open>The values that are substituted satisfy \<open>P\<close>: at the turn of each entry of the table,
  when its token occurs in the text that the entries before it have produced.\<close>

fun substituted :: "(string \<Rightarrow> bool) \<Rightarrow> (string \<times> string) list \<Rightarrow> string \<Rightarrow> bool" where
  "substituted P [] s = True"
| "substituted P ((key, val) # rs) s =
     ((str_includes s key \<longrightarrow> P val) \<and> substituted P rs (replace s key val))"

definition literal_value :: "string \<Rightarrow> bool" where
  "literal_value val = (\<not> has_pattern val)"

definition plain_value :: "string \<Rightarrow> bool" where
  "plain_value val = (\<not> has_pattern val \<and> list_all plain val)"

text \<open>The serialized text of the document \<^verbatim>\<open>{"copyrightYear": "{{YEAR}}"}\<close>.\<close>

definition year_template :: string where
  "year_template =
     ''{'' @ [dquote] @ ''copyrightYear'' @ [dquote] @ '':'' @ [dquote] @ ''{{YEAR}}'' @
     [dquote] @ ''}''"

text \<open>The document that a run of the orchestrator injects.\<close>

definition injected :: "window \<Rightarrow> fetched \<Rightarrow> json" where
  "injected w response = (case attempt w response of Inr d \<Rightarrow> d | Inl e \<Rightarrow> fallback)"

section \<open>Documents as \<^verbatim>\<open>JSON.parse\<close> rebuilds them\<close>

text \<open>The value that \<^verbatim>\<open>JSON.parse\<close> builds from the serialization of a value: in an object
  with a repeated key, the key keeps its first place and its last value, and the properties
  are in the order of an object; a number has no zero at the end of its fraction. A value
  that is written in this way already is rebuilt as it is.\<close>

definition number :: "int \<Rightarrow> nat \<Rightarrow> json" where
  "number m f =
     (case strip_zeros m f of
        (n, 0) \<Rightarrow> JNum n
      | (n, Suc g) \<Rightarrow> JDec n (Suc g))"

fun canon :: "json \<Rightarrow> json" where
  "canon (JDec m f) = number m f"
| "canon (JArr xs) = JArr (map canon xs)"
| "canon (JObj kvs) = make_object (map (\<lambda>(k, v). (k, canon v)) kvs)"
| "canon v = v"

fun normal :: "json \<Rightarrow> bool" where
  "normal (JDec m f) = (f \<noteq> 0 \<and> m mod 10 \<noteq> 0)"
| "normal (JArr xs) = list_all normal xs"
| "normal (JObj kvs) =
     (distinct (map fst kvs) \<and> property_order kvs = kvs \<and> list_all (\<lambda>(k, v). normal v) kvs)"
| "normal v = True"

text \<open>A function applied to every string of a document, keys and values alike.\<close>

fun map_strings :: "(string \<Rightarrow> string) \<Rightarrow> json \<Rightarrow> json" where
  "map_strings f (JStr s) = JStr (f s)"
| "map_strings f (JArr xs) = JArr (map (map_strings f) xs)"
| "map_strings f (JObj kvs) = JObj (map (\<lambda>(k, v). (f k, map_strings f v)) kvs)"
| "map_strings f v = v"

text \<open>What the tokens of the replacement table have in common: they begin with two opening
  braces and have no character that a JSON string literal escapes.\<close>

definition token_like :: "string \<Rightarrow> bool" where
  "token_like k = (take 2 k = ''{{'' \<and> (\<forall>c \<in> set k. plain c))"

section \<open>The lexer and the parser, run without their final step\<close>

text \<open>The state of the lexer after a text, and what it means that a text is read as a list
  of tokens: from the state between tokens, the lexer ends between tokens, or inside a
  number that the next delimiter completes.\<close>

fun lex_run :: "lex_mode \<times> token list \<Rightarrow> string \<Rightarrow> (lex_mode \<times> token list) option" where
  "lex_run st [] = Some st"
| "lex_run st (c # cs) =
     (case lex_step st c of
        None \<Rightarrow> None
      | Some st' \<Rightarrow> lex_run st' cs)"

fun settled :: "lex_mode \<times> token list \<Rightarrow> token list \<Rightarrow> bool" where
  "settled (Ready, ts) out = (out = ts)"
| "settled (InZero neg, ts) out = (out = TNumber 0 # ts)"
| "settled (InDigits neg n, ts) out = (out = TNumber (if neg then - n else n) # ts)"
| "settled (InFraction neg n f, ts) out = (out = scaled neg n f 0 # ts)"
| "settled (InExpDigits neg n f eneg e, ts) out =
     (out = scaled neg n f (if eneg then - int e else int e) # ts)"
| "settled _ out = False"

definition delim :: "char \<Rightarrow> bool" where
  "delim c = (digit_val c = None \<and> c \<noteq> CHR ''.'' \<and> \<not> exponent_mark c)"

definition lexes :: "string \<Rightarrow> token list \<Rightarrow> bool" where
  "lexes s ts = (\<forall>toks. \<exists>st. lex_run (Ready, toks) s = Some st \<and> settled st (rev ts @ toks))"

definition lexes_ready :: "string \<Rightarrow> token list \<Rightarrow> bool" where
  "lexes_ready s ts = (\<forall>toks. lex_run (Ready, toks) s = Some (Ready, rev ts @ toks))"

text \<open>The tokens of the serialization of a value.\<close>

fun commas :: "token list list \<Rightarrow> token list" where
  "commas [] = []"
| "commas [x] = x"
| "commas (x # y # ys) = x @ Comma # commas (y # ys)"

fun tokens :: "json \<Rightarrow> token list" where
  "tokens JNull = [TNull]"
| "tokens (JBool b) = [if b then TTrue else TFalse]"
| "tokens (JNum n) = [TNumber n]"
| "tokens (JDec m f) = [number_token m f]"
| "tokens (JStr s) = [TString s]"
| "tokens (JArr xs) = LBracket # commas (map tokens xs) @ [RBracket]"
| "tokens (JObj kvs) =
     LBrace # commas (map (\<lambda>(k, v). TString k # Colon # tokens v) kvs) @ [RBrace]"

definition spaces :: "string \<Rightarrow> bool" where
  "spaces s = (\<forall>c \<in> set s. c = CHR '' '')"

text \<open>The state of the parser after a list of tokens, and what it means that the tokens of a
  value are parsed: from a state that expects a value, the parser reaches the state in
  which the rebuilt value is complete.\<close>

fun parse_run :: "parse_state \<Rightarrow> token list \<Rightarrow> parse_state option" where
  "parse_run st [] = Some st"
| "parse_run st (t # ts) =
     (case parse_step st t of
        None \<Rightarrow> None
      | Some st' \<Rightarrow> parse_run st' ts)"

definition parses :: "json \<Rightarrow> bool" where
  "parses d = (\<forall>stk rest.
     parse_run (PValue stk) (tokens d @ rest) = parse_run (complete (canon d) stk) rest)"

section \<open>Example states\<close>

text \<open>A page that already holds two marked script elements, one in the head and one
  nested in the body.\<close>

definition w1 :: window where
  "w1 =
     \<lparr>hostname = ''www.recostseg.com'', pathname = ''/faq/'',
      href = ''https://www.recostseg.com/faq/'', title = ''FAQ'', lang = ''en'',
      head =
        [Element ''script'' [(''data-schema-loader'', ''recostseg'')] ''{}'' [],
         Element ''meta'' [(''name'', ''author''), (''content'', ''Ana'')] [] []],
      body =
        [Element ''div'' [] []
           [Element ''script'' [(''data-schema-loader'', ''recostseg'')] ''[]'' []]],
      now = 1793613600000, isoString = ''2026-11-02T10:00:00.000Z'', fullYear = 2026\<rparr>"

text \<open>A page whose title has two dollar signs, at an instant of 1 January 2026 (UTC); the
  same page with a double quote in the title; and the same page after a script element was
  injected into its head and a paragraph added to its body.\<close>

definition w2 :: window where
  "w2 =
     \<lparr>hostname = ''www.recostseg.com'', pathname = ''/post/save'',
      href = ''https://www.recostseg.com/post/save'', title = ''Save $$ now'', lang = [],
      head = [], body = [],
      now = 1767232800000, isoString = ''2026-01-01T02:00:00.000Z'', fullYear = 2026\<rparr>"

definition w3 :: window where
  "w3 = w2\<lparr>title := ''The '' @ [dquote] @ ''Rapid'' @ [dquote] @ '' Report''\<rparr>"

definition w4 :: window where
  "w4 = w2\<lparr>head := [Element ''script'' [(''data-schema-loader'', ''recostseg'')] ''{}'' []],
          body := [Element ''p'' [] ''Save'' []]\<rparr>"

text \<open>The same page with a price in its title.\<close>

definition w5 :: window where
  "w5 = w2\<lparr>title := ''Save $500 now''\<rparr>"

section \<open>Properties\<close>

lemma validate_errors_obj:
  "validate_errors (JObj kvs) =
     (if map_of kvs ''@context'' = None then [RequiredError ''@context''] else []) @
     (case map_of kvs ''@context'' of
        None \<Rightarrow> []
      | Some v \<Rightarrow>
          if v = JStr ''https://schema.org'' \<or> v = JStr ''http://schema.org'' then []
          else [ConstError, ConstError, OneOfError]) @
     (case map_of kvs ''@type'' of
        None \<Rightarrow> []
      | Some v \<Rightarrow> if has_type ''string'' v then [] else [TypeError ''string'']) @
     (case map_of kvs ''@graph'' of
        None \<Rightarrow> []
      | Some v \<Rightarrow> if has_type ''array'' v then [] else [TypeError ''array''])"
  by (auto simp: validate_errors_def compile_def schemaOrgValidation_def split: option.splits)

lemma has_type_string: "has_type ''string'' v \<longleftrightarrow> (\<exists>s. v = JStr s)"
  by (cases v) simp_all

lemma has_type_array: "has_type ''array'' v \<longleftrightarrow> (\<exists>xs. v = JArr xs)"
  by (cases v) simp_all

lemma validate_errors_not_obj:
  "\<forall>kvs. d \<noteq> JObj kvs \<Longrightarrow> validate_errors d = [TypeError ''object'']"
  by (cases d) (simp_all add: validate_errors_def compile_def schemaOrgValidation_def)

lemma validate_iff:
  "validate d \<longleftrightarrow>
     (field d ''@context'' = Some (JStr ''https://schema.org'') \<or>
      field d ''@context'' = Some (JStr ''http://schema.org'')) \<and>
     (field d ''@type'' = None \<or> (\<exists>s. field d ''@type'' = Some (JStr s))) \<and>
     (field d ''@graph'' = None \<or> (\<exists>xs. field d ''@graph'' = Some (JArr xs)))"
proof (cases "\<exists>kvs. d = JObj kvs")
  case True
  then obtain kvs where d: "d = JObj kvs" by blast
  show ?thesis
    unfolding d validate_def validate_errors_obj
    by (auto simp: has_type_string has_type_array split: option.splits)
next
  case False
  then have "validate_errors d = [TypeError ''object'']"
    by (simp add: validate_errors_not_obj)
  moreover from False have "field d ''@context'' = None"
    by (cases d) simp_all
  ultimately show ?thesis
    by (simp add: validate_def)
qed

subsection \<open>The verdict of the validator\<close>

text \<open>
  C1, amended. For every parsed document \<open>d\<close>: the validator reports it valid exactly when
  its top-level \<^verbatim>\<open>@context\<close> is present and is \<^verbatim>\<open>"https://schema.org"\<close> or
  \<^verbatim>\<open>"http://schema.org"\<close>, its \<^verbatim>\<open>@type\<close> is absent or a string and its \<^verbatim>\<open>@graph\<close> is absent
  or an array; two documents that agree on these three fields have the same verdict,
  whatever else they hold; an object without \<^verbatim>\<open>@context\<close> is invalid and the
  missing-property error for \<^verbatim>\<open>@context\<close> is among its errors; a document that is not an
  object is invalid with the single error that it must be an object.
\<close>

theorem validate_verdict:
  "(validate d \<longleftrightarrow>
      (field d ''@context'' = Some (JStr ''https://schema.org'') \<or>
       field d ''@context'' = Some (JStr ''http://schema.org'')) \<and>
      (field d ''@type'' = None \<or> (\<exists>s. field d ''@type'' = Some (JStr s))) \<and>
      (field d ''@graph'' = None \<or> (\<exists>xs. field d ''@graph'' = Some (JArr xs)))) \<and>
   (field d ''@context'' = field d' ''@context'' \<and>
    field d ''@type'' = field d' ''@type'' \<and>
    field d ''@graph'' = field d' ''@graph'' \<longrightarrow> validate d = validate d') \<and>
   (map_of kvs ''@context'' = None \<longrightarrow>
      \<not> validate (JObj kvs) \<and> RequiredError ''@context'' \<in> set (validate_errors (JObj kvs))) \<and>
   ((\<forall>ps. d \<noteq> JObj ps) \<longrightarrow> \<not> validate d \<and> validate_errors d = [TypeError ''object''])"
proof (intro conjI impI)
  show "validate d \<longleftrightarrow>
      (field d ''@context'' = Some (JStr ''https://schema.org'') \<or>
       field d ''@context'' = Some (JStr ''http://schema.org'')) \<and>
      (field d ''@type'' = None \<or> (\<exists>s. field d ''@type'' = Some (JStr s))) \<and>
      (field d ''@graph'' = None \<or> (\<exists>xs. field d ''@graph'' = Some (JArr xs)))"
    by (rule validate_iff)
next
  assume "field d ''@context'' = field d' ''@context'' \<and>
    field d ''@type'' = field d' ''@type'' \<and>
    field d ''@graph'' = field d' ''@graph''"
  then show "validate d = validate d'"
    by (simp add: validate_iff [of d] validate_iff [of d'])
next
  assume "map_of kvs ''@context'' = None"
  then show "\<not> validate (JObj kvs)"
    by (simp add: validate_iff)
next
  assume "map_of kvs ''@context'' = None"
  then show "RequiredError ''@context'' \<in> set (validate_errors (JObj kvs))"
    by (simp add: validate_errors_obj)
next
  assume a: "\<forall>ps. d \<noteq> JObj ps"
  then show e: "validate_errors d = [TypeError ''object'']"
    by (simp add: validate_errors_not_obj)
  then show "\<not> validate d"
    by (simp add: validate_def)
qed

text \<open>The theorem at a document with a further field, at the same document without it,
  and at an object that has no \<^verbatim>\<open>@context\<close>.\<close>

theorem validate_verdict_witness:
  "validate (JObj [(''@context'', JStr ''http://schema.org''), (''name'', JNum 1)]) \<and>
   validate (JObj [(''@context'', JStr ''http://schema.org''), (''name'', JNum 1)]) =
     validate (JObj [(''@context'', JStr ''http://schema.org'')]) \<and>
   \<not> validate (JObj [(''@type'', JStr ''Thing'')]) \<and>
   RequiredError ''@context'' \<in> set (validate_errors (JObj [(''@type'', JStr ''Thing'')]))"
  using validate_verdict
    [of "JObj [(''@context'', JStr ''http://schema.org''), (''name'', JNum 1)]"
        "JObj [(''@context'', JStr ''http://schema.org'')]"
        "[(''@type'', JStr ''Thing'')]"]
  by (simp add: validate_def validate_errors_def compile_def schemaOrgValidation_def)

text \<open>The file \<^verbatim>\<open>[]\<close> parses, has no \<^verbatim>\<open>@context\<close> and is reported invalid, but with the
  error of \<^verbatim>\<open>type: 'object'\<close> alone: no missing-property error is reported.\<close>

theorem validate_array_counterexample:
  "field (JArr []) ''@context'' = None \<and>
   \<not> validate (JArr []) \<and>
   validate_errors (JArr []) = [TypeError ''object''] \<and>
   RequiredError ''@context'' \<notin> set (validate_errors (JArr []))"
  by (simp add: validate_def validate_errors_def compile_def schemaOrgValidation_def)

subsection \<open>The fallback document is valid\<close>

text \<open>
  C10. The fallback document of \<^verbatim>\<open>loadSchema\<close> satisfies the validator's rule set: its
  \<^verbatim>\<open>@context\<close> is \<^verbatim>\<open>"https://schema.org"\<close>, its \<^verbatim>\<open>@type\<close> is a string, it has no \<^verbatim>\<open>@graph\<close>;
  the validator reports it valid, with no error, and a directory that holds it as its only
  file passes with exit status 0.
\<close>

theorem fallback_valid:
  "validate fallback \<and>
   validate_errors fallback = [] \<and>
   field fallback ''@context'' = Some (JStr ''https://schema.org'') \<and>
   field fallback ''@type'' = Some (JStr ''Organization'') \<and>
   field fallback ''@graph'' = None \<and>
   validateSchemas [(''fallback.json'', Some (JSON_stringify fallback 0))] =
     ([Passed ''fallback.json''], 0)"
proof -
  have f: "field fallback ''@context'' = Some (JStr ''https://schema.org'')"
    "field fallback ''@type'' = Some (JStr ''Organization'')"
    "field fallback ''@graph'' = None"
    by (simp_all add: fallback_def)
  have v: "validate fallback"
    by (simp add: validate_iff f)
  have p: "JSON_parse (JSON_stringify fallback 0) = Inr fallback"
    unfolding fallback_def by code_simp
  have e: "ends_with ''fallback.json'' ''.json''"
    by (simp add: ends_with_def)
  show ?thesis
    using v f by (simp add: validateSchemas_def p e validate_def)
qed

subsection \<open>Path Resolver\<close>

lemma normalize_strip_slash: "normalize p = strip_slash p"
proof (cases p rule: rev_cases)
  case Nil
  then show ?thesis by (simp add: normalize_def strip_slash_def)
next
  case (snoc q c)
  then show ?thesis by (simp add: normalize_def strip_slash_def)
qed

lemma find_first_match:
  "(case find (\<lambda>r. test (pattern r) path) rs of Some r \<Rightarrow> Some (schema r) | None \<Rightarrow> None) =
   first_match rs path"
  by (induction rs) (simp_all add: test_def starts_with_def)

lemma getSchemaFile_own:
  assumes "normalize p \<notin> set Object_prototype"
  shows "getSchemaFile p = Str (resolve p)"
proof -
  let ?n = "normalize p"
  have g: "get_property SCHEMA_MAP ?n =
             (case map_of SCHEMA_MAP ?n of Some v \<Rightarrow> Some (Str v) | None \<Rightarrow> None)"
    using assms by (simp add: get_property_def split: option.splits)
  have f: "first_match PATTERN_MAP ?n =
      (case find (\<lambda>r. test (pattern r) ?n) PATTERN_MAP of Some r \<Rightarrow> Some (schema r) | None \<Rightarrow> None)"
    by (simp only: find_first_match)
  show ?thesis
    unfolding getSchemaFile_def resolve_def Let_def g normalize_strip_slash [symmetric] f
    by (simp split: option.splits)
qed

lemma normalize_hd:
  assumes "starts_with p ''/''"
  shows "hd (normalize p) = CHR ''/''"
proof (cases p)
  case Nil
  with assms show ?thesis by (simp add: starts_with_def)
next
  case (Cons c cs)
  with assms have c: "c = CHR ''/''" by (simp add: starts_with_def)
  show ?thesis
  proof (cases "cs = []")
    case True
    with Cons c show ?thesis by (simp add: normalize_def)
  next
    case False
    with Cons c show ?thesis by (simp add: normalize_def)
  qed
qed

lemma slash_not_inherited: "hd n = CHR ''/'' \<Longrightarrow> n \<notin> set Object_prototype"
  by (auto simp: Object_prototype_def)

text \<open>
  C2. The input of the resolver is \<^verbatim>\<open>window.location.pathname\<close>, which begins with a
  slash. The resolver strips exactly one trailing slash from it and maps the empty result
  to \<^verbatim>\<open>/\<close>; for every path that begins with a slash, and more generally for every path
  whose normalized form is not the name of a property that \<^verbatim>\<open>SCHEMA_MAP\<close> inherits from
  \<^verbatim>\<open>Object.prototype\<close>, it returns the exact-match entry of the normalized path if there is
  one, otherwise the file of the first pattern rule, in declared order, that matches,
  otherwise \<^verbatim>\<open>default.json\<close>. In particular \<^verbatim>\<open>/services/\<close> and \<^verbatim>\<open>/services\<close> give
  \<^verbatim>\<open>services.json\<close>, \<^verbatim>\<open>/post/my-article\<close> gives \<^verbatim>\<open>blog-post.json\<close> and \<^verbatim>\<open>/unknown/path\<close>
  gives \<^verbatim>\<open>default.json\<close>.
\<close>

theorem getSchemaFile_resolve:
  "normalize p = strip_slash p \<and>
   (starts_with p ''/'' \<longrightarrow> getSchemaFile p = Str (resolve p)) \<and>
   (normalize p \<notin> set Object_prototype \<longrightarrow> getSchemaFile p = Str (resolve p)) \<and>
   getSchemaFile ''/services/'' = Str ''services.json'' \<and>
   getSchemaFile ''/services'' = Str ''services.json'' \<and>
   getSchemaFile ''/post/my-article'' = Str ''blog-post.json'' \<and>
   getSchemaFile ''/unknown/path'' = Str ''default.json''"
proof (intro conjI impI)
  show "normalize p = strip_slash p" by (rule normalize_strip_slash)
  show "getSchemaFile p = Str (resolve p)" if "starts_with p ''/''"
    using that by (intro getSchemaFile_own slash_not_inherited normalize_hd)
  show "getSchemaFile p = Str (resolve p)" if "normalize p \<notin> set Object_prototype"
    using that by (rule getSchemaFile_own)
  show "getSchemaFile ''/services/'' = Str ''services.json''"
    by (simp add: getSchemaFile_def normalize_def get_property_def SCHEMA_MAP_def)
  show "getSchemaFile ''/services'' = Str ''services.json''"
    by (simp add: getSchemaFile_def normalize_def get_property_def SCHEMA_MAP_def)
  show "getSchemaFile ''/post/my-article'' = Str ''blog-post.json''"
    by (simp add: getSchemaFile_def normalize_def get_property_def SCHEMA_MAP_def
        Object_prototype_def PATTERN_MAP_def test_def starts_with_def)
  show "getSchemaFile ''/unknown/path'' = Str ''default.json''"
    by (simp add: getSchemaFile_def normalize_def get_property_def SCHEMA_MAP_def
        Object_prototype_def PATTERN_MAP_def test_def starts_with_def)
qed

text \<open>The theorem at \<^verbatim>\<open>/state/texas/\<close>.\<close>

theorem getSchemaFile_resolve_witness:
  "normalize ''/state/texas/'' = ''/state/texas'' \<and>
   getSchemaFile ''/state/texas/'' = Str ''location.json'' \<and>
   resolve ''/state/texas/'' = ''location.json''"
proof -
  have r: "resolve ''/state/texas/'' = ''location.json''"
    by (simp add: resolve_def strip_slash_def SCHEMA_MAP_def PATTERN_MAP_def)
  have s: "starts_with ''/state/texas/'' ''/''"
    by (simp add: starts_with_def)
  have n: "normalize ''/state/texas/'' \<notin> set Object_prototype"
    by (simp add: normalize_def Object_prototype_def)
  from getSchemaFile_resolve [of "''/state/texas/''"] s n r show ?thesis
    by (simp add: strip_slash_def)
qed

text \<open>Why the path must begin with a slash: a text such as \<^verbatim>\<open>constructor\<close>, which no
  page has as its path, has no entry in the table and matches no pattern, yet
  \<^verbatim>\<open>SCHEMA_MAP['constructor']\<close> is the inherited, truthy \<^verbatim>\<open>Object\<close> function.\<close>

lemma getSchemaFile_not_a_path:
  "\<not> starts_with ''constructor'' ''/'' \<and>
   getSchemaFile ''constructor'' = Inherited ''constructor''"
  by (simp add: getSchemaFile_def normalize_def get_property_def SCHEMA_MAP_def
      Object_prototype_def PATTERN_MAP_def test_def starts_with_def)

subsection \<open>Cache bucket and URL\<close>

lemma digit_char_code:
  assumes "d < 10"
  shows "(of_char (digit_char d) :: nat) = 48 + d"
proof -
  from assms have "d \<in> {0, 1, 2, 3, 4, 5, 6, 7, 8, 9}"
    by auto
  then show ?thesis
    by (auto simp: digit_char_def)
qed

lemma read_nat_digits: "read_nat (digits n) = n"
proof (induction n rule: digits.induct)
  case (1 n)
  show ?case
  proof (cases "n < 10")
    case True
    then show ?thesis
      by (subst digits.simps) (simp add: read_nat_def digit_char_code)
  next
    case False
    with 1 have "read_nat (digits (n div 10)) = n div 10" by simp
    then show ?thesis using False
      by (subst digits.simps) (simp add: read_nat_def digit_char_code)
  qed
qed

lemma digits_inj: "digits m = digits n \<Longrightarrow> m = n"
  by (metis read_nat_digits)

lemma digit_char_plain:
  assumes "d < 10"
  shows "digit_char d \<noteq> CHR ''-''"
proof
  assume "digit_char d = CHR ''-''"
  then have "(of_char (digit_char d) :: nat) = of_char CHR ''-''" by simp
  with assms show False by (simp add: digit_char_code)
qed

lemma digits_hd: "digits n \<noteq> [] \<and> hd (digits n) \<noteq> CHR ''-''"
proof (induction n rule: digits.induct)
  case (1 n)
  show ?case
  proof (cases "n < 10")
    case True
    then show ?thesis
      by (subst (1 2) digits.simps) (simp add: digit_char_plain)
  next
    case False
    with 1 have "digits (n div 10) \<noteq> [] \<and> hd (digits (n div 10)) \<noteq> CHR ''-''" by simp
    then show ?thesis using False
      by (subst (1 2) digits.simps) simp
  qed
qed

lemma digits_not_minus: "digits n \<noteq> CHR ''-'' # s"
  using digits_hd [of n] by (cases "digits n") auto

lemma show_int_inj: "show_int i = show_int j \<Longrightarrow> i = j"
  using digits_not_minus digits_not_minus [symmetric]
  by (auto simp: show_int_def dest: digits_inj split: if_splits)

lemma buildSchemaUrl_eq:
  "buildSchemaUrl filename t =
     ''https://cdn.jsdelivr.net/gh/Joao-Aquino/recostseg-schemas@main/schemas/'' @
     filename @ ''?t='' @ show_int (t div 3600000)"
  by (simp add: buildSchemaUrl_def CONFIG_def)

text \<open>
  C8. For every file name and every time \<open>t\<close> in milliseconds, the URL is the CDN base,
  the repository, \<^verbatim>\<open>@\<close> and the branch, \<^verbatim>\<open>/schemas/\<close>, the file name and \<^verbatim>\<open>?t=\<close> with the
  decimal text of the bucket \<open>t div (3600 * 1000)\<close>, the floor of the quotient. Two times in
  the same window \<open>[k * 3600000, (k + 1) * 3600000)\<close> give the same URL, whose bucket is
  \<open>k\<close>; two times with different buckets give different \<^verbatim>\<open>?t\<close> texts and different URLs.
\<close>

theorem buildSchemaUrl_bucket:
  "buildSchemaUrl filename t =
     ''https://cdn.jsdelivr.net/gh/Joao-Aquino/recostseg-schemas@main/schemas/'' @
     filename @ ''?t='' @ show_int (t div (3600 * 1000)) \<and>
   (k * (3600 * 1000) \<le> t \<and> t < (k + 1) * (3600 * 1000) \<and>
    k * (3600 * 1000) \<le> t' \<and> t' < (k + 1) * (3600 * 1000) \<longrightarrow>
      buildSchemaUrl filename t = buildSchemaUrl filename t' \<and>
      buildSchemaUrl filename t =
        ''https://cdn.jsdelivr.net/gh/Joao-Aquino/recostseg-schemas@main/schemas/'' @
        filename @ ''?t='' @ show_int k) \<and>
   (t div (3600 * 1000) \<noteq> t' div (3600 * 1000) \<longrightarrow>
      show_int (t div (3600 * 1000)) \<noteq> show_int (t' div (3600 * 1000)) \<and>
      buildSchemaUrl filename t \<noteq> buildSchemaUrl filename t')"
proof (intro conjI impI)
  show "buildSchemaUrl filename t =
     ''https://cdn.jsdelivr.net/gh/Joao-Aquino/recostseg-schemas@main/schemas/'' @
     filename @ ''?t='' @ show_int (t div (3600 * 1000))"
    by (simp add: buildSchemaUrl_eq)
next
  assume w: "k * (3600 * 1000) \<le> t \<and> t < (k + 1) * (3600 * 1000) \<and>
    k * (3600 * 1000) \<le> t' \<and> t' < (k + 1) * (3600 * 1000)"
  then have "t div 3600000 = k" "t' div 3600000 = k"
    by (auto intro: int_div_pos_eq [where r = "t - 3600000 * k"]
        int_div_pos_eq [where r = "t' - 3600000 * k"])
  then show "buildSchemaUrl filename t = buildSchemaUrl filename t'"
    "buildSchemaUrl filename t =
        ''https://cdn.jsdelivr.net/gh/Joao-Aquino/recostseg-schemas@main/schemas/'' @
        filename @ ''?t='' @ show_int k"
    by (simp_all add: buildSchemaUrl_eq)
next
  assume d: "t div (3600 * 1000) \<noteq> t' div (3600 * 1000)"
  then show s: "show_int (t div (3600 * 1000)) \<noteq> show_int (t' div (3600 * 1000))"
    by (auto dest: show_int_inj)
  then show "buildSchemaUrl filename t \<noteq> buildSchemaUrl filename t'"
    by (simp add: buildSchemaUrl_eq)
qed

text \<open>The theorem at two times of the window 498055 and at the first time of the next
  one.\<close>

theorem buildSchemaUrl_bucket_witness:
  "buildSchemaUrl ''faq.json'' 1793000000000 =
     ''https://cdn.jsdelivr.net/gh/Joao-Aquino/recostseg-schemas@main/schemas/faq.json?t=498055'' \<and>
   buildSchemaUrl ''faq.json'' 1793000000000 = buildSchemaUrl ''faq.json'' 1793001599999 \<and>
   buildSchemaUrl ''faq.json'' 1793000000000 \<noteq> buildSchemaUrl ''faq.json'' 1793001600000"
proof -
  have w: "498055 * (3600 * 1000) \<le> (1793000000000::int) \<and>
      (1793000000000::int) < (498055 + 1) * (3600 * 1000) \<and>
      498055 * (3600 * 1000) \<le> (1793001599999::int) \<and>
      (1793001599999::int) < (498055 + 1) * (3600 * 1000)"
    by simp
  have d: "(1793000000000::int) div (3600 * 1000) \<noteq> 1793001600000 div (3600 * 1000)"
    by simp
  have e: "''https://cdn.jsdelivr.net/gh/Joao-Aquino/recostseg-schemas@main/schemas/'' @
        ''faq.json'' @ ''?t='' @ show_int 498055 =
     ''https://cdn.jsdelivr.net/gh/Joao-Aquino/recostseg-schemas@main/schemas/faq.json?t=498055''"
    by (simp add: show_int_def digits.simps digit_char_def)
  from buildSchemaUrl_bucket [of "''faq.json''" 1793000000000 498055 1793001599999] w
  have same: "buildSchemaUrl ''faq.json'' 1793000000000 = buildSchemaUrl ''faq.json'' 1793001599999 \<and>
      buildSchemaUrl ''faq.json'' 1793000000000 =
        ''https://cdn.jsdelivr.net/gh/Joao-Aquino/recostseg-schemas@main/schemas/'' @
        ''faq.json'' @ ''?t='' @ show_int 498055"
    by blast
  from buildSchemaUrl_bucket [of "''faq.json''" 1793000000000 498055 1793001600000] d
  have other: "buildSchemaUrl ''faq.json'' 1793000000000 \<noteq> buildSchemaUrl ''faq.json'' 1793001600000"
    by blast
  show ?thesis
    by (intro conjI conjunct2 [OF same [unfolded e]] conjunct1 [OF same] other)
qed

subsection \<open>The scan of the validator\<close>

lemma validate_file_eq:
  "validate_file (h, out) entry = (h \<or> rejected entry, out @ [result_of entry])"
  by (cases entry) (simp add: result_of_def rejected_def split: sum.splits)

lemma scan_files_eq:
  "scan_files (h, out) files =
     (out @ map result_of (read_files files),
      if h \<or> (\<exists>entry \<in> set files. snd entry = None) \<or>
         (\<exists>entry \<in> set (read_files files). rejected entry)
      then 1 else 0)"
proof (induction files arbitrary: h out rule: read_files.induct)
  case 1
  show ?case by simp
next
  case (2 f fs)
  show ?case by simp
next
  case (3 f c fs)
  show ?case
    unfolding scan_files.simps validate_file_eq 3 by auto
qed

lemma read_files_all:
  "\<forall>entry \<in> set files. snd entry \<noteq> None \<Longrightarrow>
   map (\<lambda>(file, content). (file, Some content)) (read_files files) = files"
  by (induction files rule: read_files.induct) simp_all

lemma read_files_prefix:
  "\<forall>entry \<in> set pre. snd entry \<noteq> None \<Longrightarrow>
   read_files (pre @ (file, None) # post) = read_files pre"
  by (induction pre rule: read_files.induct) simp_all

lemma read_files_mem:
  "\<forall>entry \<in> set files. snd entry \<noteq> None \<Longrightarrow> (file, Some content) \<in> set files \<Longrightarrow>
   (file, content) \<in> set (read_files files)"
  by (induction files rule: read_files.induct) auto

text \<open>
  C5, amended. For every directory, the run reads the entries whose name ends in \<^verbatim>\<open>.json\<close>
  in listing order, up to the first one that cannot be read. Each file that is read gets
  exactly one line of the report, whatever happened to the files before it: the
  invalid-JSON line when its content fails to parse, otherwise the verdict of the rule set.
  When every such entry can be read, every one of them gets its line, and the exit status
  is non-zero exactly when some file is unparsable or invalid; it is then 1, and 0
  otherwise. When one of them cannot be read, the run ends at the first such entry: the
  report has the lines of the files before it only, and the exit status is 1.
\<close>

theorem validateSchemas_report:
  "fst (validateSchemas dir) =
     map result_of (read_files (filter (\<lambda>(file, content). ends_with file ''.json'') dir)) \<and>
   ((\<forall>(file, content) \<in> set dir. ends_with file ''.json'' \<longrightarrow> content \<noteq> None) \<longrightarrow>
      map (\<lambda>(file, content). (file, Some content))
        (read_files (filter (\<lambda>(file, content). ends_with file ''.json'') dir)) =
        filter (\<lambda>(file, content). ends_with file ''.json'') dir \<and>
      ((file, Some content) \<in> set dir \<and> ends_with file ''.json'' \<and>
       JSON_parse content = Inl SyntaxError \<longrightarrow>
         InvalidJSON file \<in> set (fst (validateSchemas dir))) \<and>
      (snd (validateSchemas dir) \<noteq> 0 \<longleftrightarrow>
         (\<exists>(file, content) \<in> set dir. ends_with file ''.json'' \<and>
            (case content of
               None \<Rightarrow> False
             | Some text \<Rightarrow>
                 (case JSON_parse text of
                    Inl error \<Rightarrow> True
                  | Inr document \<Rightarrow> \<not> validate document)))) \<and>
      (snd (validateSchemas dir) = 0 \<or> snd (validateSchemas dir) = 1)) \<and>
   (filter (\<lambda>(file, content). ends_with file ''.json'') dir = pre @ (unread, None) # post \<and>
    (\<forall>entry \<in> set pre. snd entry \<noteq> None) \<longrightarrow>
      fst (validateSchemas dir) = map result_of (read_files pre) \<and>
      length (fst (validateSchemas dir)) = length pre \<and>
      snd (validateSchemas dir) = 1)"
proof (intro conjI impI)
  let ?files = "filter (\<lambda>(file, content). ends_with file ''.json'') dir"
  show l: "fst (validateSchemas dir) = map result_of (read_files ?files)"
    by (simp add: validateSchemas_def scan_files_eq)
  {
    assume r: "\<forall>(file, content) \<in> set dir. ends_with file ''.json'' \<longrightarrow> content \<noteq> None"
    then have all: "\<forall>entry \<in> set ?files. snd entry \<noteq> None"
      by auto
    then show m: "map (\<lambda>(file, content). (file, Some content)) (read_files ?files) = ?files"
      by (rule read_files_all)
    have s: "snd (validateSchemas dir) =
        (if \<exists>entry \<in> set (read_files ?files). rejected entry then 1 else 0)"
      using all unfolding validateSchemas_def scan_files_eq by auto
    have e: "(\<exists>entry \<in> set (read_files ?files). rejected entry) \<longleftrightarrow>
        (\<exists>(file, content) \<in> set dir. ends_with file ''.json'' \<and>
            (case content of
               None \<Rightarrow> False
             | Some text \<Rightarrow>
                 (case JSON_parse text of
                    Inl error \<Rightarrow> True
                  | Inr document \<Rightarrow> \<not> validate document)))"
    proof
      assume "\<exists>entry \<in> set (read_files ?files). rejected entry"
      then obtain f c where fc: "(f, c) \<in> set (read_files ?files)" "rejected (f, c)"
        by auto
      have "(\<lambda>(file, content). (file, Some content)) (f, c) \<in>
          (\<lambda>(file, content). (file, Some content)) ` set (read_files ?files)"
        using fc(1) by (rule imageI)
      then have "(f, Some c) \<in> set (map (\<lambda>(file, content). (file, Some content)) (read_files ?files))"
        by simp
      then have "(f, Some c) \<in> set ?files"
        by (simp only: m)
      then have d: "(f, Some c) \<in> set dir" "ends_with f ''.json''"
        by simp_all
      from fc(2) have "case JSON_parse c of Inl error \<Rightarrow> True | Inr document \<Rightarrow> \<not> validate document"
        by (simp add: rejected_def)
      with d show "\<exists>(file, content) \<in> set dir. ends_with file ''.json'' \<and>
            (case content of
               None \<Rightarrow> False
             | Some text \<Rightarrow>
                 (case JSON_parse text of
                    Inl error \<Rightarrow> True
                  | Inr document \<Rightarrow> \<not> validate document))"
        by (intro bexI [of _ "(f, Some c)"]) simp_all
    next
      assume "\<exists>(file, content) \<in> set dir. ends_with file ''.json'' \<and>
            (case content of
               None \<Rightarrow> False
             | Some text \<Rightarrow>
                 (case JSON_parse text of
                    Inl error \<Rightarrow> True
                  | Inr document \<Rightarrow> \<not> validate document))"
      then obtain f oc where fo: "(f, oc) \<in> set dir" "ends_with f ''.json''"
        "case oc of None \<Rightarrow> False
         | Some text \<Rightarrow>
             (case JSON_parse text of Inl error \<Rightarrow> True | Inr document \<Rightarrow> \<not> validate document)"
        by blast
      then obtain c where o: "oc = Some c"
        by (cases oc) simp_all
      with fo have fc: "(f, Some c) \<in> set dir" "ends_with f ''.json''" "rejected (f, c)"
        by (simp_all add: rejected_def)
      then have "(f, Some c) \<in> set ?files" by simp
      with all have "(f, c) \<in> set (read_files ?files)"
        by (rule read_files_mem)
      with fc(3) show "\<exists>entry \<in> set (read_files ?files). rejected entry"
        by blast
    qed
    show "snd (validateSchemas dir) \<noteq> 0 \<longleftrightarrow>
         (\<exists>(file, content) \<in> set dir. ends_with file ''.json'' \<and>
            (case content of
               None \<Rightarrow> False
             | Some text \<Rightarrow>
                 (case JSON_parse text of
                    Inl error \<Rightarrow> True
                  | Inr document \<Rightarrow> \<not> validate document)))"
      unfolding s e [symmetric] by simp
    show "snd (validateSchemas dir) = 0 \<or> snd (validateSchemas dir) = 1"
      unfolding s by simp
    {
      assume a: "(file, Some content) \<in> set dir \<and> ends_with file ''.json'' \<and>
        JSON_parse content = Inl SyntaxError"
      then have "(file, Some content) \<in> set ?files" by simp
      with all have "(file, content) \<in> set (read_files ?files)"
        by (rule read_files_mem)
      then have "result_of (file, content) \<in> result_of ` set (read_files ?files)"
        by (rule imageI)
      moreover from a have "result_of (file, content) = InvalidJSON file"
        by (simp add: result_of_def)
      ultimately show "InvalidJSON file \<in> set (fst (validateSchemas dir))"
        by (simp only: l set_map)
    }
  }
  {
    assume u: "?files = pre @ (unread, None) # post \<and> (\<forall>entry \<in> set pre. snd entry \<noteq> None)"
    then have p: "read_files ?files = read_files pre"
      by (simp add: read_files_prefix)
    then show f: "fst (validateSchemas dir) = map result_of (read_files pre)"
      by (simp add: l)
    from u have "map (\<lambda>(file, content). (file, Some content)) (read_files pre) = pre"
      by (intro read_files_all) simp
    then have "length (map (\<lambda>(file, content). (file, Some content)) (read_files pre)) = length pre"
      by (simp only:)
    then show "length (fst (validateSchemas dir)) = length pre"
      by (simp add: f)
    from u show "snd (validateSchemas dir) = 1"
      by (simp add: validateSchemas_def scan_files_eq)
  }
qed

text \<open>The theorem at a directory with a malformed file before a valid one, at the
  directory without the malformed file, and at a directory in which an entry that cannot
  be read stands between two files.\<close>

theorem validateSchemas_report_witness:
  "validateSchemas
     [(''broken.json'', Some ''{oops''), (''notes.txt'', None),
      (''fallback.json'', Some (JSON_stringify fallback 0))] =
     ([InvalidJSON ''broken.json'', Passed ''fallback.json''], 1) \<and>
   validateSchemas [(''notes.txt'', None), (''fallback.json'', Some (JSON_stringify fallback 0))] =
     ([Passed ''fallback.json''], 0) \<and>
   validateSchemas
     [(''fallback.json'', Some (JSON_stringify fallback 0)), (''old.json'', None),
      (''broken.json'', Some ''{oops'')] =
     ([Passed ''fallback.json''], 1)"
proof -
  let ?dir = "[(''broken.json'', Some ''{oops''), (''notes.txt'', None),
      (''fallback.json'', Some (JSON_stringify fallback 0))]"
  let ?good = "[(''notes.txt'', None), (''fallback.json'', Some (JSON_stringify fallback 0))]"
  let ?cut = "[(''fallback.json'', Some (JSON_stringify fallback 0)), (''old.json'', None),
      (''broken.json'', Some ''{oops'')]"
  have p: "JSON_parse ''{oops'' = Inl SyntaxError"
    by code_simp
  have q: "JSON_parse (JSON_stringify fallback 0) = Inr fallback"
    unfolding fallback_def by code_simp
  have v: "validate fallback"
    by (simp add: validate_iff fallback_def)
  have e: "ends_with ''broken.json'' ''.json''" "ends_with ''fallback.json'' ''.json''"
    "\<not> ends_with ''notes.txt'' ''.json''" "ends_with ''old.json'' ''.json''"
    by (simp_all add: ends_with_def)
  have r: "result_of (''broken.json'', ''{oops'') = InvalidJSON ''broken.json''"
    "result_of (''fallback.json'', JSON_stringify fallback 0) = Passed ''fallback.json''"
    by (simp_all add: result_of_def p q v)
  note t = validateSchemas_report [of ?dir "''broken.json''" "''{oops''" "[]" "''old.json''" "[]"]
  have rd: "\<forall>(file, content) \<in> set ?dir. ends_with file ''.json'' \<longrightarrow> content \<noteq> None"
    by (simp add: e)
  have "fst (validateSchemas ?dir) = [InvalidJSON ''broken.json'', Passed ''fallback.json'']"
    using t [THEN conjunct1] by (simp add: e r)
  moreover have "snd (validateSchemas ?dir) = 1"
    using t [THEN conjunct2, THEN conjunct1, THEN mp, OF rd] by (auto simp: e p)
  moreover
  note t' = validateSchemas_report [of ?good "''broken.json''" "''{oops''" "[]" "''old.json''" "[]"]
  have rd': "\<forall>(file, content) \<in> set ?good. ends_with file ''.json'' \<longrightarrow> content \<noteq> None"
    by (simp add: e)
  have "fst (validateSchemas ?good) = [Passed ''fallback.json'']"
    using t' [THEN conjunct1] by (simp add: e r)
  moreover have "snd (validateSchemas ?good) = 0"
    using t' [THEN conjunct2, THEN conjunct1, THEN mp, OF rd'] by (auto simp: e q v)
  moreover
  note t'' = validateSchemas_report [of ?cut "''broken.json''" "''{oops''"
      "[(''fallback.json'', Some (JSON_stringify fallback 0))]" "''old.json''"
      "[(''broken.json'', Some ''{oops'')]"]
  have "fst (validateSchemas ?cut) = [Passed ''fallback.json''] \<and> snd (validateSchemas ?cut) = 1"
    using t'' [THEN conjunct2, THEN conjunct2] by (simp add: e r)
  ultimately show ?thesis
    by (simp add: prod_eq_iff)
qed

text \<open>The claim as it was stated fails at a directory with an entry \<^verbatim>\<open>old.json\<close> that
  cannot be read (a directory of that name): the exit status is 1 although no document is
  unparsable or invalid, the only document being valid; and in the third directory of the
  witness the malformed file after that entry is not processed. Here the run ends before
  the valid file is read, and nothing is reported.\<close>

theorem validateSchemas_unreadable_counterexample:
  "validateSchemas [(''old.json'', None), (''fallback.json'', Some (JSON_stringify fallback 0))] =
     ([], 1) \<and>
   JSON_parse (JSON_stringify fallback 0) = Inr fallback \<and>
   validate fallback \<and>
   validateSchemas
     [(''broken.json'', Some ''{oops''), (''old.json'', None),
      (''fallback.json'', Some (JSON_stringify fallback 0))] =
     ([InvalidJSON ''broken.json''], 1)"
proof -
  have p: "JSON_parse ''{oops'' = Inl SyntaxError"
    by code_simp
  have q: "JSON_parse (JSON_stringify fallback 0) = Inr fallback"
    unfolding fallback_def by code_simp
  have v: "validate fallback"
    by (simp add: validate_iff fallback_def)
  have e: "ends_with ''broken.json'' ''.json''" "ends_with ''fallback.json'' ''.json''"
    "ends_with ''old.json'' ''.json''"
    by (simp_all add: ends_with_def)
  show ?thesis
    by (simp add: validateSchemas_def e p q v)
qed

subsection \<open>Serialization followed by parsing\<close>

lemma lex_all_run:
  "lex_all st s = (case lex_run st s of None \<Rightarrow> None | Some st' \<Rightarrow> lex_finish st')"
  by (induction s arbitrary: st) (simp_all split: option.splits)

lemma lex_run_append:
  "lex_run st (a @ b) = (case lex_run st a of None \<Rightarrow> None | Some st' \<Rightarrow> lex_run st' b)"
  by (induction a arbitrary: st) (simp_all split: option.splits)

lemma step_settled: "settled st out \<Longrightarrow> delim c \<Longrightarrow> lex_step st c = ready c out"
proof -
  assume a: "settled st out" "delim c"
  obtain m ts where st: "st = (m, ts)" by (cases st)
  from a show ?thesis unfolding st by (cases m) (auto simp: delim_def)
qed

lemma lex_step_string [simp]:
  "lex_step (InString acc, toks) c =
     (if c = dquote then Some (Ready, TString (rev acc) # toks)
      else if c = backslash then Some (InEscape acc, toks)
      else if (of_char c :: nat) < 32 then None
      else Some (InString (c # acc), toks))"
  by (simp add: in_string_def)

lemma lex_step_escape [simp]:
  "lex_step (InEscape acc, toks) c =
     (if c = dquote then Some (InString (dquote # acc), toks)
      else if c = backslash then Some (InString (backslash # acc), toks)
      else if c = CHR ''/'' then Some (InString (CHR ''/'' # acc), toks)
      else if c = CHR ''b'' then Some (InString (CHR 0x08 # acc), toks)
      else if c = CHR ''f'' then Some (InString (CHR 0x0C # acc), toks)
      else if c = CHR ''n'' then Some (InString (CHR 0x0A # acc), toks)
      else if c = CHR ''r'' then Some (InString (CHR 0x0D # acc), toks)
      else if c = CHR ''t'' then Some (InString (CHR 0x09 # acc), toks)
      else if c = CHR ''u'' then Some (InUnicode acc [], toks)
      else None)"
  by (simp add: in_escape_def)

declare lex_step.simps(2,3) [simp del]

lemma finish_settled: "settled st out \<Longrightarrow> lex_finish st = Some (rev out)"
proof -
  assume a: "settled st out"
  obtain m ts where st: "st = (m, ts)" by (cases st)
  from a show ?thesis unfolding st by (cases m) auto
qed

lemma lexes_ready_lexes: "lexes_ready s ts \<Longrightarrow> lexes s ts"
  by (auto simp: lexes_def lexes_ready_def)

lemma lexes_ready_append:
  "lexes_ready a ta \<Longrightarrow> lexes_ready b tb \<Longrightarrow> lexes_ready (a @ b) (ta @ tb)"
  by (simp add: lexes_ready_def lex_run_append)

lemma lexes_ready_then:
  "lexes_ready a ta \<Longrightarrow> lexes b tb \<Longrightarrow> lexes (a @ b) (ta @ tb)"
  by (simp add: lexes_ready_def lexes_def lex_run_append)

lemma lexes_then_ready:
  assumes "lexes a ta" "lexes_ready (c # b) tb" "delim c"
  shows "lexes_ready (a @ c # b) (ta @ tb)"
  unfolding lexes_ready_def
proof
  fix toks
  from assms(1) [unfolded lexes_def, rule_format, of toks]
  obtain st where st: "lex_run (Ready, toks) a = Some st" "settled st (rev ta @ toks)"
    by blast
  from st(2) assms(3) have "lex_step st c = lex_step (Ready, rev ta @ toks) c"
    by (simp add: step_settled)
  then have "lex_run st (c # b) = lex_run (Ready, rev ta @ toks) (c # b)"
    by simp
  with st(1) assms(2) show "lex_run (Ready, toks) (a @ c # b) = Some (Ready, rev (ta @ tb) @ toks)"
    by (simp add: lex_run_append lexes_ready_def)
qed

lemma lexes_parse:
  assumes "lexes s ts"
  shows "lex_all (Ready, []) s = Some ts"
proof -
  from assms [unfolded lexes_def, rule_format, of "[]"]
  obtain st where "lex_run (Ready, []) s = Some st" "settled st (rev ts)"
    by auto
  then show ?thesis
    by (simp add: lex_all_run finish_settled)
qed

lemma hex_val_hex_digit:
  assumes "m < 16"
  shows "hex_val (hex_digit m) = Some m"
proof -
  from assms have "m \<in> {0, 1, 2, 3, 4, 5, 6, 7, 8, 9, 10, 11, 12, 13, 14, 15}"
    by simp arith
  then show ?thesis
    by (auto simp: hex_digit_def hex_val_def)
qed

lemma lex_run_escape_char:
  "lex_run (InString acc, toks) (escape_char c @ rest) = lex_run (InString (c # acc), toks) rest"
proof -
  let ?n = "of_char c :: nat"
  consider (short) "c = dquote \<or> c = backslash \<or> c = CHR 0x08 \<or> c = CHR 0x0C \<or> c = CHR 0x0A \<or>
      c = CHR 0x0D \<or> c = CHR 0x09"
    | (control) "\<not> (c = dquote \<or> c = backslash \<or> c = CHR 0x08 \<or> c = CHR 0x0C \<or> c = CHR 0x0A \<or>
      c = CHR 0x0D \<or> c = CHR 0x09)" "?n < 32"
    | (plain) "\<not> (c = dquote \<or> c = backslash \<or> c = CHR 0x08 \<or> c = CHR 0x0C \<or> c = CHR 0x0A \<or>
      c = CHR 0x0D \<or> c = CHR 0x09)" "\<not> ?n < 32"
    by blast
  then show ?thesis
  proof cases
    case short
    then show ?thesis
      by (auto simp: escape_char_def dquote_def backslash_def)
  next
    case control
    have h: "hex_val (hex_digit (?n div 16)) = Some (?n div 16)"
      "hex_val (hex_digit (?n mod 16)) = Some (?n mod 16)"
      using control(2) by (simp_all add: hex_val_hex_digit)
    have z: "hex_val CHR ''0'' = Some 0"
      by (simp add: hex_val_def)
    have e: "escape_char c = [backslash, CHR ''u'', CHR ''0'', CHR ''0'',
         hex_digit (?n div 16), hex_digit (?n mod 16)]"
      using control by (simp add: escape_char_def)
    have c: "char_of (16 * (?n div 16) + ?n mod 16) = c"
      by simp
    have u: "utf8 ?n = [c]" "\<not> high_surrogate ?n"
      using control(2) by (simp_all add: utf8_def high_surrogate_def)
    show ?thesis
      unfolding e
      by (simp add: h z u code_unit_def dquote_def backslash_def Let_def)
  next
    case plain
    then show ?thesis
      by (simp add: escape_char_def)
  qed
qed

lemma lex_run_escaped:
  "lex_run (InString acc, toks) (concat (map escape_char s) @ rest) =
   lex_run (InString (rev s @ acc), toks) rest"
  by (induction s arbitrary: acc) (simp_all add: lex_run_escape_char)

lemma lexes_quote: "lexes_ready (quote s) [TString s]"
  by (simp add: lexes_ready_def quote_def ready_def is_ws_def dquote_def
      lex_run_escaped [where rest = "[CHR 0x22]", unfolded dquote_def])

lemma digit_char_cases:
  assumes "d < 10"
  shows "digit_char d \<in> set ''0123456789''"
  unfolding digit_char_def using assms by (intro nth_mem) simp

lemma digit_val_digit_char: "d < 10 \<Longrightarrow> digit_val (digit_char d) = Some d"
  by (simp add: digit_val_def digit_char_code)

lemma ready_zero: "ready CHR ''0'' toks = Some (InZero False, toks)"
  by (simp add: ready_def is_ws_def dquote_def)

lemma ready_minus: "ready CHR ''-'' toks = Some (InMinus, toks)"
  by (simp add: ready_def is_ws_def dquote_def)

lemma ready_digit:
  assumes "0 < d" "d < 10"
  shows "ready (digit_char d) toks = Some (InDigits False (int d), toks)"
proof -
  have z: "digit_char d \<noteq> CHR ''0''"
  proof
    assume "digit_char d = CHR ''0''"
    then have "(of_char (digit_char d) :: nat) = of_char CHR ''0''" by simp
    with assms show False by (simp add: digit_char_code)
  qed
  from digit_char_cases [OF assms(2)] z digit_val_digit_char [OF assms(2)]
  show ?thesis
    by (auto simp: ready_def is_ws_def dquote_def)
qed

lemma minus_digit:
  assumes "0 < d" "d < 10"
  shows "lex_step (InMinus, toks) (digit_char d) = Some (InDigits True (int d), toks)"
proof -
  have z: "digit_char d \<noteq> CHR ''0''"
  proof
    assume "digit_char d = CHR ''0''"
    then have "(of_char (digit_char d) :: nat) = of_char CHR ''0''" by simp
    with assms show False by (simp add: digit_char_code)
  qed
  with digit_val_digit_char [OF assms(2)] show ?thesis
    by simp
qed

lemma lex_run_snoc:
  "lex_run st (a @ [c]) = (case lex_run st a of None \<Rightarrow> None | Some st' \<Rightarrow> lex_step st' c)"
  by (simp add: lex_run_append split: option.splits)

lemma lex_digits_pos:
  "0 < n \<Longrightarrow> lex_run (Ready, toks) (digits n) = Some (InDigits False (int n), toks)"
proof (induction n rule: digits.induct)
  case (1 n)
  show ?case
  proof (cases "n < 10")
    case True
    with 1(2) show ?thesis
      by (subst digits.simps) (simp add: ready_digit)
  next
    case False
    then have "0 < n div 10" by simp
    with 1(1) False have "lex_run (Ready, toks) (digits (n div 10)) =
        Some (InDigits False (int (n div 10)), toks)"
      by simp
    moreover have "10 * int (n div 10) + int (n mod 10) = int n"
      by (simp add: zdiv_int zmod_int)
    ultimately show ?thesis using False
      by (subst digits.simps) (simp add: lex_run_snoc digit_val_digit_char)
  qed
qed

lemma lex_digits_neg:
  "0 < n \<Longrightarrow> lex_run (InMinus, toks) (digits n) = Some (InDigits True (int n), toks)"
proof (induction n rule: digits.induct)
  case (1 n)
  show ?case
  proof (cases "n < 10")
    case True
    with 1(2) show ?thesis
      by (subst digits.simps) (simp add: minus_digit del: lex_step.simps)
  next
    case False
    then have "0 < n div 10" by simp
    with 1(1) False have "lex_run (InMinus, toks) (digits (n div 10)) =
        Some (InDigits True (int (n div 10)), toks)"
      by simp
    moreover have "10 * int (n div 10) + int (n mod 10) = int n"
      by (simp add: zdiv_int zmod_int)
    ultimately show ?thesis using False
      by (subst digits.simps) (simp add: lex_run_snoc digit_val_digit_char)
  qed
qed

lemma lexes_number: "lexes (show_int i) [TNumber i]"
proof -
  consider (zero) "i = 0" | (pos) "0 < i" | (neg) "i < 0"
    by linarith
  then show ?thesis
  proof cases
    case zero
    then show ?thesis
      by (simp add: lexes_def show_int_def digits.simps digit_char_def ready_zero)
  next
    case pos
    then have "lex_run (Ready, toks) (digits (nat i)) = Some (InDigits False i, toks)" for toks
      using lex_digits_pos [of "nat i" toks] by simp
    with pos show ?thesis
      by (simp add: lexes_def show_int_def)
  next
    case neg
    then have "lex_run (InMinus, toks) (digits (nat (- i))) = Some (InDigits True (- i), toks)" for toks
      using lex_digits_neg [of "nat (- i)" toks] by simp
    with neg show ?thesis
      by (simp add: lexes_def show_int_def ready_minus)
  qed
qed

lemma strip_zeros_normal: "strip_zeros m f = (n, Suc g) \<Longrightarrow> n mod 10 \<noteq> 0"
  by (induction m f rule: strip_zeros.induct) (auto split: if_splits)

lemma number_token_normal: "n mod 10 \<noteq> 0 \<Longrightarrow> number_token n (Suc g) = TDecimal n (Suc g)"
  by (simp add: number_token_def)

lemma lex_fraction:
  "r < 10 ^ Suc g \<Longrightarrow>
   lex_run (InPoint neg a, toks) (fraction (Suc g) r) =
     Some (InFraction neg (a * 10 ^ Suc g + int r) (Suc g), toks)"
proof (induction g arbitrary: r)
  case 0
  then show ?case
    by (simp add: digit_val_digit_char)
next
  case (Suc g)
  from Suc.prems have "r div 10 < 10 ^ Suc g"
    by (simp add: less_mult_imp_div_less)
  then have "lex_run (InPoint neg a, toks) (fraction (Suc g) (r div 10)) =
      Some (InFraction neg (a * 10 ^ Suc g + int (r div 10)) (Suc g), toks)"
    by (rule Suc.IH)
  moreover have "10 * (a * 10 ^ Suc g + int (r div 10)) + int (r mod 10) =
      a * 10 ^ Suc (Suc g) + int r"
    by (simp add: zdiv_int zmod_int algebra_simps)
  ultimately show ?case
    by (subst fraction.simps) (simp add: lex_run_snoc digit_val_digit_char del: fraction.simps)
qed

lemma lex_integral:
  "lex_run (Ready, toks) ((if neg then ''-'' else []) @ digits a @ ''.'') =
     Some (InPoint neg (int a), toks)"
proof (cases "a = 0")
  case True
  have p: "digit_val CHR ''.'' = None"
    by (simp add: digit_val_def)
  have "digits 0 = ''0''"
    by (simp add: digits.simps digit_char_def)
  with True p show ?thesis
    by (simp add: ready_zero ready_minus)
next
  case False
  have p: "digit_val CHR ''.'' = None"
    by (simp add: digit_val_def)
  from False have "lex_run (Ready, toks) (digits a) = Some (InDigits False (int a), toks)"
    "lex_run (InMinus, toks) (digits a) = Some (InDigits True (int a), toks)"
    by (simp_all add: lex_digits_pos lex_digits_neg)
  then show ?thesis
    by (simp add: lex_run_append ready_minus p)
qed

lemma lexes_decimal:
  assumes "n mod 10 \<noteq> 0"
  shows "lexes (show_decimal n (Suc g)) [TDecimal n (Suc g)]"
proof -
  let ?m = "nat \<bar>n\<bar>"
  let ?a = "?m div 10 ^ Suc g" and ?r = "?m mod 10 ^ Suc g"
  have r: "?r < 10 ^ Suc g"
    by simp
  have v: "int ?a * 10 ^ Suc g + int ?r = \<bar>n\<bar>"
  proof -
    have "int ?a * 10 ^ Suc g + int ?r = int (?a * 10 ^ Suc g + ?r)"
      by (simp only: of_nat_add of_nat_mult of_nat_power of_nat_numeral)
    also have "\<dots> = int ?m"
      by (simp only: div_mult_mod_eq)
    finally show ?thesis by simp
  qed
  have e: "nat (int g + 1) = Suc g"
    by simp
  have t: "scaled (n < 0) \<bar>n\<bar> (Suc g) 0 = TDecimal n (Suc g)"
    using assms by (simp add: scaled_def Let_def e number_token_normal)
  have "lex_run (Ready, toks) (show_decimal n (Suc g)) =
      Some (InFraction (n < 0) \<bar>n\<bar> (Suc g), toks)" for toks
  proof -
    have "show_decimal n (Suc g) =
        ((if n < 0 then ''-'' else []) @ digits ?a @ ''.'') @ fraction (Suc g) ?r"
      by (simp add: show_decimal_def)
    then show ?thesis
      by (simp only: lex_run_append [of _ "(if n < 0 then ''-'' else []) @ digits ?a @ ''.''"]
          lex_integral lex_fraction [OF r] option.case v)
  qed
  then show ?thesis
    by (simp add: lexes_def t)
qed

lemma lexes_show_number: "lexes (show_number m f) [number_token m f]"
proof (cases "strip_zeros m f")
  case (Pair n g)
  show ?thesis
  proof (cases g)
    case 0
    with Pair show ?thesis
      by (simp add: show_number_def number_token_def lexes_number)
  next
    case (Suc h)
    with Pair have "n mod 10 \<noteq> 0"
      by (simp add: strip_zeros_normal)
    with Pair Suc show ?thesis
      by (simp add: show_number_def number_token_def lexes_decimal)
  qed
qed

lemma lexes_literals:
  "lexes_ready ''null'' [TNull]" "lexes_ready ''true'' [TTrue]" "lexes_ready ''false'' [TFalse]"
  "lexes_ready ''['' [LBracket]" "lexes_ready '']'' [RBracket]"
  "lexes_ready ''{'' [LBrace]" "lexes_ready ''}'' [RBrace]"
  "lexes_ready '','' [Comma]" "lexes_ready '':'' [Colon]" "lexes_ready '': '' [Colon]"
  by (simp_all add: lexes_ready_def ready_def is_ws_def dquote_def digit_val_def)

lemma lexes_ws: "\<forall>c \<in> set ws. c = CHR '' '' \<or> c = newline \<Longrightarrow> lexes_ready ws []"
  unfolding lexes_ready_def
  by (induction ws) (auto simp: ready_def is_ws_def newline_def)

lemma lexes_Nil: "lexes [] []"
  by (simp add: lexes_def)

lemma lexes_join:
  assumes "list_all2 lexes parts tparts" "lexes_ready (CHR '','' # ws) [Comma]"
  shows "lexes (join (CHR '','' # ws) parts) (commas tparts)"
  using assms(1)
proof (induction rule: list_all2_induct)
  case Nil
  show ?case by (simp add: lexes_Nil)
next
  case (Cons x xs tx txs)
  show ?case
  proof (cases xs)
    case Nil
    with Cons show ?thesis by simp
  next
    case xs: (Cons y ys)
    with Cons(2) obtain ty tys where txs: "txs = ty # tys"
      by (auto simp: list_all2_Cons1)
    have d: "delim CHR '',''"
      by (simp add: delim_def digit_val_def exponent_mark_def)
    from Cons(1) assms(2) d have "lexes_ready (x @ CHR '','' # ws) (tx @ [Comma])"
      by (rule lexes_then_ready)
    from lexes_ready_then [OF this Cons(3)] xs txs show ?thesis
      by simp
  qed
qed

lemma lexes_wrap:
  assumes p: "list_all2 lexes parts tparts"
    and l: "lexes_ready [lc] [L]" and r: "lexes_ready [rc] [R]" and d: "delim rc"
    and s: "spaces gap" "spaces ind"
  shows "lexes_ready (wrap gap ind [lc] [rc] parts) (L # commas tparts @ [R])"
proof (cases "parts = []")
  case True
  with p have "tparts = []" by simp
  with True lexes_ready_append [OF l r] show ?thesis
    by (simp add: wrap_def)
next
  case False
  show ?thesis
  proof (cases "gap = []")
    case True
    have "lexes_ready '','' [Comma]"
      by (rule lexes_literals)
    with p have "lexes (join '','' parts) (commas tparts)"
      by (rule lexes_join)
    with l have "lexes ([lc] @ join '','' parts) ([L] @ commas tparts)"
      by (rule lexes_ready_then)
    from this r d have "lexes_ready (([lc] @ join '','' parts) @ rc # []) (([L] @ commas tparts) @ [R])"
      by (rule lexes_then_ready)
    with True False show ?thesis
      by (simp add: wrap_def)
  next
    case gap: False
    let ?ws = "[newline] @ ind @ gap"
    have w: "lexes_ready ?ws []"
      using s by (intro lexes_ws) (auto simp: spaces_def)
    have c: "lexes_ready (CHR '','' # ?ws) [Comma]"
      using lexes_ready_append [OF lexes_literals(8) w] by simp
    from p c have j: "lexes (join (CHR '','' # ?ws) parts) (commas tparts)"
      by (rule lexes_join)
    have o: "lexes_ready ([lc] @ ?ws) [L]"
      using lexes_ready_append [OF l w] by simp
    from o j have "lexes (([lc] @ ?ws) @ join (CHR '','' # ?ws) parts) ([L] @ commas tparts)"
      by (rule lexes_ready_then)
    moreover have "lexes_ready (newline # ind @ [rc]) [R]"
    proof -
      have "lexes_ready ([newline] @ ind) []"
        using s by (intro lexes_ws) (auto simp: spaces_def)
      from lexes_ready_append [OF this r] show ?thesis by simp
    qed
    moreover have "delim newline"
      by (simp add: delim_def digit_val_def exponent_mark_def newline_def)
    ultimately have "lexes_ready ((([lc] @ ?ws) @ join (CHR '','' # ?ws) parts) @ newline # ind @ [rc])
        (([L] @ commas tparts) @ [R])"
      by (rule lexes_then_ready)
    with gap False show ?thesis
      by (simp add: wrap_def)
  qed
qed

lemma lexes_serialize:
  assumes "spaces gap"
  shows "spaces ind \<Longrightarrow> lexes (serialize gap ind d) (tokens d)"
proof (induction d arbitrary: ind)
  case JNull
  show ?case by (simp add: lexes_literals lexes_ready_lexes)
next
  case (JBool b)
  show ?case by (simp add: lexes_literals lexes_ready_lexes)
next
  case (JNum n)
  show ?case by (simp add: lexes_number)
next
  case (JDec m f)
  show ?case by (simp add: lexes_show_number)
next
  case (JStr s)
  show ?case by (simp add: lexes_quote lexes_ready_lexes)
next
  case (JArr xs)
  from assms JArr(2) have i: "spaces (ind @ gap)"
    by (auto simp: spaces_def)
  with JArr(1) have "list_all2 lexes (map (serialize gap (ind @ gap)) xs) (map tokens xs)"
    by (simp add: list_all2_map1 list_all2_map2 list.rel_refl_strong)
  then have "lexes_ready (wrap gap ind ''['' '']'' (map (serialize gap (ind @ gap)) xs))
      (LBracket # commas (map tokens xs) @ [RBracket])"
    using assms JArr(2)
    by (intro lexes_wrap lexes_literals) (simp_all add: delim_def digit_val_def exponent_mark_def)
  then show ?case
    by (simp add: lexes_ready_lexes)
next
  case (JObj kvs)
  from assms JObj(2) have i: "spaces (ind @ gap)"
    by (auto simp: spaces_def)
  have m: "lexes (quote k @ '':'' @ (if gap = [] then [] else '' '') @ serialize gap (ind @ gap) v)
      (TString k # Colon # tokens v)" if "(k, v) \<in> set kvs" for k v
  proof -
    from that JObj(1) i have v: "lexes (serialize gap (ind @ gap) v) (tokens v)"
      by fastforce
    have "lexes_ready ('':'' @ (if gap = [] then [] else '' '')) [Colon]"
      using lexes_literals(9,10) by simp
    with lexes_quote have "lexes_ready (quote k @ '':'' @ (if gap = [] then [] else '' ''))
        ([TString k] @ [Colon])"
      by (rule lexes_ready_append)
    from lexes_ready_then [OF this v] show ?thesis
      by simp
  qed
  have "list_all2 lexes
      (map (\<lambda>(k, v). quote k @ '':'' @ (if gap = [] then [] else '' '') @
                          serialize gap (ind @ gap) v) kvs)
      (map (\<lambda>(k, v). TString k # Colon # tokens v) kvs)"
    using m by (auto simp: list_all2_map1 list_all2_map2 intro!: list.rel_refl_strong)
  then have "lexes_ready (wrap gap ind ''{'' ''}''
      (map (\<lambda>(k, v). quote k @ '':'' @ (if gap = [] then [] else '' '') @
                          serialize gap (ind @ gap) v) kvs))
      (LBrace # commas (map (\<lambda>(k, v). TString k # Colon # tokens v) kvs) @ [RBrace])"
    using assms JObj(2)
    by (intro lexes_wrap lexes_literals) (simp_all add: delim_def digit_val_def exponent_mark_def)
  then show ?case
    by (simp add: lexes_ready_lexes)
qed

lemma parse_all_run:
  "parse_all st ts = (case parse_run st ts of Some (PDone v) \<Rightarrow> Some v | _ \<Rightarrow> None)"
proof (induction ts arbitrary: st)
  case Nil
  show ?case by (cases st) simp_all
next
  case (Cons t ts)
  then show ?case by (simp split: option.splits)
qed

lemma parse_run_append:
  "parse_run st (a @ b) = (case parse_run st a of None \<Rightarrow> None | Some st' \<Rightarrow> parse_run st' b)"
  by (induction a arbitrary: st) (simp_all split: option.splits)

lemma number_token_cases:
  "(\<exists>n. number_token m f = TNumber n \<and> number m f = JNum n) \<or>
   (\<exists>n g. number_token m f = TDecimal n g \<and> number m f = JDec n g)"
  by (cases "strip_zeros m f"; cases "snd (strip_zeros m f)")
    (simp_all add: number_token_def number_def)

lemma begin_value_number:
  "begin_value (number_token m f) stk = Some (complete (number m f) stk)"
  using number_token_cases [of m f] by auto

lemma tokens_first: "\<exists>t ts. tokens d = t # ts \<and> t \<noteq> RBracket"
proof (cases d)
  case (JDec m f)
  with number_token_cases [of m f] show ?thesis by auto
qed auto

lemma parse_first_elem:
  "parse_run (PFirstElem stk) (tokens d @ rest) =
   parse_run (PValue (ArrFrame [] # stk)) (tokens d @ rest)"
proof -
  from tokens_first [of d] obtain t ts where "tokens d = t # ts" "t \<noteq> RBracket"
    by blast
  then show ?thesis by simp
qed

lemma parse_elements:
  assumes "\<forall>x \<in> set xs. parses x" "xs \<noteq> []"
  shows "parse_run (PValue (ArrFrame acc # stk)) (commas (map tokens xs) @ RBracket # rest) =
    parse_run (complete (JArr (rev acc @ map canon xs)) stk) rest"
  using assms
proof (induction xs arbitrary: acc)
  case Nil
  then show ?case by simp
next
  case (Cons x xs)
  from Cons(2) have x: "parses x" by simp
  show ?case
  proof (cases xs)
    case Nil
    with x show ?thesis
      by (simp add: parses_def)
  next
    case (Cons y ys)
    with Cons.IH [of "canon x # acc"] Cons.prems
    have "parse_run (PValue (ArrFrame (canon x # acc) # stk))
        (commas (map tokens xs) @ RBracket # rest) =
      parse_run (complete (JArr (rev (canon x # acc) @ map canon xs)) stk) rest"
      by simp
    with x Cons show ?thesis
      by (simp add: parses_def)
  qed
qed

lemma parse_members:
  assumes "\<forall>(k, v) \<in> set kvs. parses v" "kvs \<noteq> []"
  shows "parse_run (PKey acc stk)
      (commas (map (\<lambda>(k, v). TString k # Colon # tokens v) kvs) @ RBrace # rest) =
    parse_run (complete (make_object (rev acc @ map (\<lambda>(k, v). (k, canon v)) kvs)) stk) rest"
  using assms
proof (induction kvs arbitrary: acc)
  case Nil
  then show ?case by simp
next
  case (Cons kv kvs)
  obtain k v where kv: "kv = (k, v)" by (cases kv)
  with Cons(2) have v: "parses v" by simp
  show ?case
  proof (cases kvs)
    case Nil
    with v kv show ?thesis
      by (simp add: parses_def)
  next
    case (Cons y ys)
    with Cons.IH [of "(k, canon v) # acc"] Cons.prems
    have "parse_run (PKey ((k, canon v) # acc) stk)
        (commas (map (\<lambda>(k, v). TString k # Colon # tokens v) kvs) @ RBrace # rest) =
      parse_run (complete (make_object (rev ((k, canon v) # acc) @
        map (\<lambda>(k, v). (k, canon v)) kvs)) stk) rest"
      by simp
    with v kv Cons show ?thesis
      by (simp add: parses_def)
  qed
qed

lemma parses_all: "parses d"
proof (induction d)
  case (JArr xs)
  show ?case
  proof (cases "xs = []")
    case True
    then show ?thesis by (simp add: parses_def)
  next
    case False
    then obtain x ys where xs: "xs = x # ys" by (cases xs) auto
    from JArr have all: "\<forall>x \<in> set xs. parses x" by simp
    show ?thesis
      unfolding parses_def
    proof (intro allI)
      fix stk rest
      let ?ts = "commas (map tokens xs) @ RBracket # rest"
      have "parse_run (PValue stk) (tokens (JArr xs) @ rest) = parse_run (PFirstElem stk) ?ts"
        by simp
      also have "\<dots> = parse_run (PValue (ArrFrame [] # stk)) ?ts"
        unfolding xs using parse_first_elem [of stk x]
        by (cases ys) (simp_all del: parse_run.simps)
      also have "\<dots> = parse_run (complete (JArr (rev [] @ map canon xs)) stk) rest"
        using all False by (rule parse_elements)
      finally show "parse_run (PValue stk) (tokens (JArr xs) @ rest) =
          parse_run (complete (canon (JArr xs)) stk) rest"
        by simp
    qed
  qed
next
  case (JObj kvs)
  show ?case
  proof (cases kvs)
    case Nil
    then show ?thesis by (simp add: parses_def make_object_def property_order_def)
  next
    case (Cons kv ys)
    obtain k v where kv: "kv = (k, v)" by (cases kv)
    from JObj have all: "\<forall>(k, v) \<in> set kvs. parses v" by fastforce
    from Cons have ne: "kvs \<noteq> []" by simp
    show ?thesis
      unfolding parses_def
    proof (intro allI)
      fix stk rest
      let ?ts = "commas (map (\<lambda>(k, v). TString k # Colon # tokens v) kvs) @ RBrace # rest"
      have "parse_run (PValue stk) (tokens (JObj kvs) @ rest) = parse_run (PFirstKey stk) ?ts"
        by simp
      also have "\<dots> = parse_run (PKey [] stk) ?ts"
        unfolding Cons kv by (cases ys) simp_all
      also have "\<dots> = parse_run (complete (make_object (rev [] @
          map (\<lambda>(k, v). (k, canon v)) kvs)) stk) rest"
        using all ne by (rule parse_members)
      finally show "parse_run (PValue stk) (tokens (JObj kvs) @ rest) =
          parse_run (complete (canon (JObj kvs)) stk) rest"
        by simp
    qed
  qed
qed (simp_all add: parses_def begin_value_number)

lemma spaces_replicate: "spaces (replicate n CHR '' '')"
  by (simp add: spaces_def)

lemma JSON_parse_stringify: "JSON_parse (JSON_stringify d space) = Inr (canon d)"
proof -
  have "lexes (JSON_stringify d space) (tokens d)"
    unfolding JSON_stringify_def
    by (rule lexes_serialize) (simp_all add: spaces_def)
  then have l: "lex_all (Ready, []) (JSON_stringify d space) = Some (tokens d)"
    by (rule lexes_parse)
  from parses_all [of d, unfolded parses_def, rule_format, of "[]" "[]"]
  have "parse_run (PValue []) (tokens d @ []) = Some (PDone (canon d))"
    by simp
  then have "parse_all (PValue []) (tokens d) = Some (canon d)"
    by (simp add: parse_all_run)
  with l show ?thesis
    by (simp add: JSON_parse_def)
qed

lemma set_property_new:
  "k \<notin> fst ` set obj \<Longrightarrow> set_property obj k v = obj @ [(k, v)]"
  by (induction obj) auto

lemma foldl_set_property:
  "distinct (map fst (acc @ kvs)) \<Longrightarrow>
   foldl (\<lambda>obj (k, v). set_property obj k v) acc kvs = acc @ kvs"
proof (induction kvs arbitrary: acc)
  case Nil
  show ?case by simp
next
  case (Cons kv kvs)
  obtain k v where kv: "kv = (k, v)" by (cases kv)
  from Cons.prems kv have "k \<notin> fst ` set acc" by auto
  then have "set_property acc k v = acc @ [(k, v)]"
    by (rule set_property_new)
  moreover from Cons.prems kv have "distinct (map fst ((acc @ [(k, v)]) @ kvs))" by simp
  ultimately show ?case
    using Cons.IH [of "acc @ [(k, v)]"] kv by simp
qed

lemma make_object_distinct:
  "distinct (map fst kvs) \<Longrightarrow> property_order kvs = kvs \<Longrightarrow> make_object kvs = JObj kvs"
  using foldl_set_property [of "[]" kvs] by (simp add: make_object_def)

lemma canon_normal: "normal d \<Longrightarrow> canon d = d"
proof (induction d)
  case (JDec m f)
  then obtain g where "f = Suc g" "m mod 10 \<noteq> 0"
    by (cases f) simp_all
  then show ?case by (simp add: number_def)
next
  case (JArr xs)
  then show ?case by (simp add: list_all_iff map_idI)
next
  case (JObj kvs)
  then have "map (\<lambda>(k, v). (k, canon v)) kvs = kvs"
    by (intro map_idI) (fastforce simp: list_all_iff)
  with JObj(2) show ?case by (simp add: make_object_distinct)
qed simp_all

lemma not_array_index: "digit_val (hd k) = None \<Longrightarrow> \<not> array_index k"
  by (cases k) (simp_all add: array_index_def)

lemma property_order_names:
  "\<forall>(k, v) \<in> set kvs. \<not> array_index k \<Longrightarrow> property_order kvs = kvs"
proof -
  assume a: "\<forall>(k, v) \<in> set kvs. \<not> array_index k"
  then have "filter (\<lambda>(k, v). array_index k) kvs = []"
    by (auto simp: filter_empty_conv)
  moreover from a have "filter (\<lambda>(k, v). \<not> array_index k) kvs = kvs"
    by (auto simp: filter_id_conv)
  ultimately show ?thesis
    by (simp add: property_order_def)
qed

subsection \<open>Injector\<close>

lemma descendants_append: "descendants (xs @ ys) = descendants xs @ descendants ys"
  by (induction xs rule: descendants.induct) simp_all

lemma marked_children: "marked (Element t as x cs) = marked (Element t as x cs')"
  by (simp add: marked_def selects_def)

lemma remove_marked_none: "filter marked (descendants (remove_marked es)) = []"
proof (induction es rule: remove_marked.induct)
  case 1
  show ?case by simp
next
  case (2 t as x cs es)
  show ?case
  proof (cases "marked (Element t as x cs)")
    case True
    with 2 show ?thesis by simp
  next
    case False
    then have "\<not> marked (Element t as x (remove_marked cs))"
      using marked_children by blast
    with 2 False show ?thesis by simp
  qed
qed

lemma marked_script_element: "marked (script_element w d)"
  by (simp add: marked_def selects_def script_element_def)

lemma descendants_script: "descendants [script_element w d] = [script_element w d]"
  by (simp add: script_element_def)

lemma injectSchema_marked:
  "filter marked (elements (injectSchema w d)) = [script_element w d]"
  by (simp add: elements_def injectSchema_def descendants_append remove_marked_none
      marked_script_element descendants_script)

lemma debug_injectSchema: "debug (injectSchema w d) = debug w"
  by (simp add: debug_def injectSchema_def)

lemma textContent_script:
  "textContent (script_element w d) = JSON_stringify d (if debug w then 2 else 0)"
  by (simp add: script_element_def)

lemma page_loadSchema: "page (loadSchema w r) = injectSchema w (injected w r)"
  by (simp add: loadSchema_def injected_def split: sum.splits)

text \<open>
  C4. After every injection, whatever the page held before, the marked script elements of
  the page are exactly one: the element just created, whose text is the serialization of
  the document of this injection and parses back to that document. This holds for a second
  injection after a first, for a run of the orchestrator (which injects the processed
  document, or the fallback when the attempt throws), and for a second run after a first.
\<close>

theorem injectSchema_single:
  "filter marked (elements (injectSchema w d)) = [script_element w d] \<and>
   textContent (script_element w d) = JSON_stringify d (if debug w then 2 else 0) \<and>
   JSON_parse (textContent (script_element w d)) = Inr (canon d) \<and>
   filter marked (elements (injectSchema (injectSchema w d) d')) = [script_element w d'] \<and>
   filter marked (elements (page (loadSchema w r))) =
     [script_element w (case attempt w r of Inr processed \<Rightarrow> processed | Inl e \<Rightarrow> fallback)] \<and>
   filter marked (elements (page (loadSchema (page (loadSchema w r)) r'))) =
     [script_element w
        (case attempt (page (loadSchema w r)) r' of
           Inr processed \<Rightarrow> processed
         | Inl e \<Rightarrow> fallback)]"
proof (intro conjI)
  show "filter marked (elements (injectSchema w d)) = [script_element w d]"
    by (rule injectSchema_marked)
  show "textContent (script_element w d) = JSON_stringify d (if debug w then 2 else 0)"
    by (rule textContent_script)
  show "JSON_parse (textContent (script_element w d)) = Inr (canon d)"
    by (simp only: textContent_script JSON_parse_stringify)
  have s: "script_element (injectSchema w x) y = script_element w y" for x y
    by (simp add: script_element_def debug_injectSchema)
  show "filter marked (elements (injectSchema (injectSchema w d) d')) = [script_element w d']"
    by (simp add: injectSchema_marked s)
  show "filter marked (elements (page (loadSchema w r))) =
     [script_element w (case attempt w r of Inr processed \<Rightarrow> processed | Inl e \<Rightarrow> fallback)]"
    by (simp add: page_loadSchema injected_def injectSchema_marked)
  show "filter marked (elements (page (loadSchema (page (loadSchema w r)) r'))) =
     [script_element w
        (case attempt (page (loadSchema w r)) r' of
           Inr processed \<Rightarrow> processed
         | Inl e \<Rightarrow> fallback)]"
    by (simp add: page_loadSchema injected_def injectSchema_marked s)
qed

text \<open>The theorem at a page with two marked elements already in it.\<close>

theorem injectSchema_single_witness:
  "length (filter marked (elements w1)) = 2 \<and>
   filter marked (elements (injectSchema w1 (JObj [(''name'', JStr ''FAQ'')]))) =
     [script_element w1 (JObj [(''name'', JStr ''FAQ'')])] \<and>
   JSON_parse (textContent (script_element w1 (JObj [(''name'', JStr ''FAQ'')]))) =
     Inr (JObj [(''name'', JStr ''FAQ'')]) \<and>
   filter marked (elements (page (loadSchema w1 (Response 404 [])))) =
     [script_element w1 fallback]"
proof -
  have a: "attempt w1 (Response 404 []) = Inl (HttpError 404)"
    by (simp add: attempt_def ok_def)
  have n: "length (filter marked (elements w1)) = 2"
    by (simp add: w1_def elements_def marked_def selects_def)
  have c: "canon (JObj [(''name'', JStr ''FAQ'')]) = JObj [(''name'', JStr ''FAQ'')]"
    by (simp add: make_object_def property_order_names not_array_index digit_val_def)
  note t = injectSchema_single [of w1 "JObj [(''name'', JStr ''FAQ'')]" fallback
      "Response 404 []" Rejected]
  note i = t [THEN conjunct1]
  note p = t [THEN conjunct2, THEN conjunct2, THEN conjunct1, unfolded c]
  note l = t [THEN conjunct2, THEN conjunct2, THEN conjunct2, THEN conjunct2, THEN conjunct1,
      unfolded a sum.case]
  show ?thesis
    by (intro conjI n i p l)
qed


subsection \<open>Loader Orchestrator\<close>

text \<open>
  C6. When the fetch is rejected, or answers with a status outside 200 to 299, the run
  completes with the fallback document injected, no \<^verbatim>\<open>schemaLoaded\<close> event and the error
  passed to \<^verbatim>\<open>console.error\<close> only; afterwards the page has exactly one marked script
  element, holding the serialized fallback document.
\<close>

theorem loadSchema_failure:
  "(response = Rejected \<or> (\<exists>status text. response = Response status text \<and> \<not> ok status)) \<longrightarrow>
     (\<exists>error. loadSchema w response =
        \<lparr>page = injectSchema w fallback, dispatched = [], logged = [error]\<rparr>) \<and>
     filter marked (elements (page (loadSchema w response))) = [script_element w fallback] \<and>
     length (filter marked (elements (page (loadSchema w response)))) = 1 \<and>
     textContent (script_element w fallback) =
       JSON_stringify fallback (if debug w then 2 else 0)"
proof
  assume "response = Rejected \<or> (\<exists>status text. response = Response status text \<and> \<not> ok status)"
  then obtain error where a: "attempt w response = Inl error"
    by (auto simp: attempt_def)
  then have l: "loadSchema w response =
      \<lparr>page = injectSchema w fallback, dispatched = [], logged = [error]\<rparr>"
    by (simp add: loadSchema_def)
  then show "(\<exists>error. loadSchema w response =
        \<lparr>page = injectSchema w fallback, dispatched = [], logged = [error]\<rparr>) \<and>
     filter marked (elements (page (loadSchema w response))) = [script_element w fallback] \<and>
     length (filter marked (elements (page (loadSchema w response)))) = 1 \<and>
     textContent (script_element w fallback) =
       JSON_stringify fallback (if debug w then 2 else 0)"
    by (simp add: injectSchema_marked textContent_script)
qed

text \<open>The theorem at a 503 response, with the rejected fetch beside it.\<close>

theorem loadSchema_failure_witness:
  "loadSchema w1 (Response 503 ''Service Unavailable'') =
     \<lparr>page = injectSchema w1 fallback, dispatched = [], logged = [HttpError 503]\<rparr> \<and>
   length (filter marked (elements (page (loadSchema w1 (Response 503 ''Service Unavailable''))))) = 1 \<and>
   loadSchema w1 Rejected =
     \<lparr>page = injectSchema w1 fallback, dispatched = [], logged = [NetworkError]\<rparr>"
proof -
  have h: "Response 503 ''Service Unavailable'' = Rejected \<or>
      (\<exists>status text. Response 503 ''Service Unavailable'' = Response status text \<and> \<not> ok status)"
    by (simp add: ok_def)
  have l: "loadSchema w1 (Response 503 ''Service Unavailable'') =
     \<lparr>page = injectSchema w1 fallback, dispatched = [], logged = [HttpError 503]\<rparr>"
    "loadSchema w1 Rejected =
     \<lparr>page = injectSchema w1 fallback, dispatched = [], logged = [NetworkError]\<rparr>"
    by (simp_all add: loadSchema_def attempt_def ok_def)
  from loadSchema_failure [of "Response 503 ''Service Unavailable''" w1] h l show ?thesis
    by simp
qed

subsection \<open>Template Processor\<close>

lemma expand_literal: "\<not> has_pattern val \<Longrightarrow> expand m pre post val = val"
  by (induction m pre post val rule: expand.induct) auto

lemma has_pattern_dollar: "has_pattern val \<Longrightarrow> CHR ''$'' \<in> set val"
  by (induction val rule: has_pattern.induct) auto

lemma scan_literal:
  "\<not> has_pattern val \<Longrightarrow> scan key val pre rest = literal_scan key val rest"
proof (induction key val pre rest rule: scan.induct)
  case (1 key val pre rest)
  show ?case
  proof (cases "rest = []")
    case True
    then show ?thesis
      by (subst scan.simps, subst literal_scan.simps) simp
  next
    case False
    show ?thesis
    proof (cases "key \<noteq> [] \<and> starts_with rest key")
      case True
      with False 1 show ?thesis
        by (subst scan.simps, subst literal_scan.simps) (simp add: expand_literal)
    next
      case no: False
      with False 1 show ?thesis
        by (subst scan.simps, subst literal_scan.simps) auto
    qed
  qed
qed

lemma scan_absent: "\<not> str_includes rest key \<Longrightarrow> scan key val pre rest = rest"
proof (induction key val pre rest rule: scan.induct)
  case (1 key val pre rest)
  show ?case
  proof (cases rest)
    case Nil
    then show ?thesis by (subst scan.simps) simp
  next
    case (Cons c cs)
    with 1(3) have n: "\<not> starts_with rest key" "\<not> str_includes cs key"
      by simp_all
    with Cons 1(2) have "scan key val (pre @ [hd rest]) (tl rest) = tl rest"
      by simp
    with Cons n show ?thesis
      by (subst scan.simps) simp
  qed
qed

lemma replace_absent: "\<not> str_includes s key \<Longrightarrow> replace s key val = s"
  by (simp add: replace_def scan_absent)

lemma foldl_replace_absent:
  "\<forall>(key, val) \<in> set rs. \<not> str_includes s key \<Longrightarrow>
   foldl (\<lambda>s (key, val). replace s key val) s rs = s"
  by (induction rs) (auto simp: replace_absent)

lemma literal_scan_absent: "\<not> str_includes rest key \<Longrightarrow> literal_scan key val rest = rest"
proof (induction key val rest rule: literal_scan.induct)
  case (1 key val rest)
  show ?case
  proof (cases rest)
    case Nil
    then show ?thesis by (subst literal_scan.simps) simp
  next
    case (Cons c cs)
    with 1(3) have n: "\<not> starts_with rest key" "\<not> str_includes cs key"
      by simp_all
    with Cons 1(2) have "literal_scan key val (tl rest) = tl rest"
      by simp
    with Cons n show ?thesis
      by (subst literal_scan.simps) simp
  qed
qed

lemma replace_literal:
  assumes "str_includes s key \<longrightarrow> \<not> has_pattern val"
  shows "replace s key val = literal_scan key val s"
proof (cases "str_includes s key")
  case True
  with assms show ?thesis
    by (simp add: replace_def scan_literal)
next
  case False
  then show ?thesis
    by (simp add: replace_absent literal_scan_absent)
qed

lemma foldl_replace_literal:
  "substituted literal_value rs s \<Longrightarrow>
   foldl (\<lambda>s (key, val). replace s key val) s rs =
   foldl (\<lambda>s (key, val). literal_scan key val s) s rs"
proof (induction rs arbitrary: s)
  case Nil
  show ?case by simp
next
  case (Cons r rs)
  obtain key val where r: "r = (key, val)" by (cases r)
  with Cons.prems have e: "replace s key val = literal_scan key val s"
    by (intro replace_literal) (simp add: literal_value_def)
  from Cons.prems r have "substituted literal_value rs (replace s key val)"
    by simp
  then have "foldl (\<lambda>s (key, val). replace s key val) (replace s key val) rs =
      foldl (\<lambda>s (key, val). literal_scan key val s) (replace s key val) rs"
    by (rule Cons.IH)
  with r e show ?case by simp
qed

lemma lex_all_plain:
  "\<forall>c \<in> set s. plain c \<Longrightarrow>
   lex_all (InString acc, toks) (s @ rest) = lex_all (InString (rev s @ acc), toks) rest"
  by (induction s arbitrary: acc) (auto simp: plain_def)

lemma digit_char_is_plain:
  assumes "d < 10"
  shows "plain (digit_char d)"
proof -
  from assms have "d \<in> {0, 1, 2, 3, 4, 5, 6, 7, 8, 9}"
    by auto
  then show ?thesis
    by (auto simp: digit_char_def plain_def dquote_def backslash_def)
qed

lemma digits_all:
  assumes "\<And>d. d < 10 \<Longrightarrow> P (digit_char d)"
  shows "\<forall>c \<in> set (digits n). P c"
proof (induction n rule: digits.induct)
  case (1 n)
  show ?case
  proof (cases "n < 10")
    case True
    then show ?thesis
      by (subst digits.simps) (simp add: assms)
  next
    case False
    with 1 have "\<forall>c \<in> set (digits (n div 10)). P c" by simp
    then show ?thesis using False
      by (subst digits.simps) (simp add: assms)
  qed
qed

lemma digit_char_no_dollar: "d < 10 \<Longrightarrow> digit_char d \<noteq> CHR ''$''"
  using digit_char_cases [of d] by auto

lemma show_int_literal: "\<not> has_pattern (show_int i)"
proof
  assume "has_pattern (show_int i)"
  then have "CHR ''$'' \<in> set (show_int i)"
    by (rule has_pattern_dollar)
  moreover have "\<forall>c \<in> set (digits n). c \<noteq> CHR ''$''" for n
    by (rule digits_all) (rule digit_char_no_dollar)
  ultimately show False
    by (auto simp: show_int_def split: if_splits)
qed

lemma digits_plain: "\<forall>c \<in> set (digits n). plain c"
proof (induction n rule: digits.induct)
  case (1 n)
  show ?case
  proof (cases "n < 10")
    case True
    then show ?thesis
      by (subst digits.simps) (simp add: digit_char_is_plain)
  next
    case False
    with 1 have "\<forall>c \<in> set (digits (n div 10)). plain c" by simp
    then show ?thesis using False
      by (subst digits.simps) (simp add: digit_char_is_plain)
  qed
qed

lemma show_int_plain: "\<forall>c \<in> set (show_int i). plain c"
  using digits_plain by (simp add: show_int_def plain_def dquote_def backslash_def)

lemma escape_plain: "\<forall>c \<in> set s. plain c \<Longrightarrow> concat (map escape_char s) = s"
proof (induction s)
  case Nil
  show ?case by simp
next
  case (Cons c s)
  then have "plain c" by simp
  then have "escape_char c = [c]"
    by (auto simp: escape_char_def plain_def)
  with Cons show ?case by simp
qed

lemma year_template_text:
  "JSON_stringify (JObj [(''copyrightYear'', JStr ''{{YEAR}}'')]) 0 = year_template"
  by (simp add: JSON_stringify_def wrap_def quote_def escape_char_def dquote_def
      backslash_def year_template_def)

lemma year_template_absent:
  "\<not> str_includes year_template ''{{CURRENT_URL}}''"
  "\<not> str_includes year_template ''{{PAGE_TITLE}}''"
  "\<not> str_includes year_template ''{{META_DESCRIPTION}}''"
  "\<not> str_includes year_template ''{{OG_IMAGE}}''"
  "\<not> str_includes year_template ''{{PUBLISHED_DATE}}''"
  "\<not> str_includes year_template ''{{MODIFIED_DATE}}''"
  "\<not> str_includes year_template ''{{AUTHOR}}''"
  "\<not> str_includes year_template ''{{LANGUAGE}}''"
  by (simp_all add: year_template_def starts_with_def dquote_def)

lemma year_replaced:
  assumes "\<not> has_pattern val"
  shows "replace year_template ''{{YEAR}}'' val =
    ''{'' @ [dquote] @ ''copyrightYear'' @ [dquote] @ '':'' @ [dquote] @ val @ [dquote] @ ''}''"
  using assms
  by (simp add: replace_def year_template_def scan.simps starts_with_def expand_literal dquote_def)

lemma year_text:
  "substitute w (JSON_stringify (JObj [(''copyrightYear'', JStr ''{{YEAR}}'')]) 0) =
   JSON_stringify (JObj [(''copyrightYear'', JStr (show_int (fullYear w)))]) 0"
proof -
  have d: "\<not> has_pattern (show_int (fullYear w))"
    by (rule show_int_literal)
  have "substitute w year_template =
      replace year_template ''{{YEAR}}'' (show_int (fullYear w))"
    by (simp add: substitute_def replacements_def Let_def replace_absent year_template_absent)
  also have "\<dots> = ''{'' @ [dquote] @ ''copyrightYear'' @ [dquote] @ '':'' @ [dquote] @
      show_int (fullYear w) @ [dquote] @ ''}''"
    using d by (rule year_replaced)
  also have "\<dots> = JSON_stringify (JObj [(''copyrightYear'', JStr (show_int (fullYear w)))]) 0"
    by (simp add: JSON_stringify_def wrap_def quote_def escape_char_def dquote_def
        backslash_def escape_plain show_int_plain)
  finally show ?thesis
    by (simp add: year_template_text)
qed

lemma year_parsed:
  assumes "\<forall>c \<in> set val. plain c"
  shows "JSON_parse (JSON_stringify (JObj [(''copyrightYear'', JStr val)]) 0) =
    Inr (JObj [(''copyrightYear'', JStr val)])"
proof -
  have "JSON_stringify (JObj [(''copyrightYear'', JStr val)]) 0 =
      ''{'' @ [dquote] @ ''copyrightYear'' @ [dquote] @ '':'' @ [dquote] @ val @ [dquote] @ ''}''"
    using assms
    by (simp add: JSON_stringify_def wrap_def quote_def escape_char_def dquote_def
        backslash_def escape_plain)
  moreover have "lex_all (Ready, [])
      (''{'' @ [dquote] @ ''copyrightYear'' @ [dquote] @ '':'' @ [dquote] @ val @ [dquote] @ ''}'') =
      Some [LBrace, TString ''copyrightYear'', Colon, TString val, RBrace]"
    using assms
    by (simp add: ready_def is_ws_def dquote_def backslash_def
        lex_all_plain [where rest = "[CHR 0x22, CHR ''}'']", unfolded dquote_def])
  ultimately show ?thesis
    by (simp add: JSON_parse_def make_object_def property_order_names not_array_index
        digit_val_def)
qed

lemma processSchema_year:
  "processSchema w (JObj [(''copyrightYear'', JStr ''{{YEAR}}'')]) =
     Inr (JObj [(''copyrightYear'', JStr (show_int (fullYear w)))])"
  by (simp add: processSchema_def year_text year_parsed show_int_plain)

lemma digits_length: "length (digits n) = (if n < 10 then 1 else Suc (length (digits (n div 10))))"
  by (subst digits.simps) simp

lemma four_digits:
  assumes "1000 \<le> i" "i \<le> 9999"
  shows "length (show_int i) = 4"
proof -
  let ?n = "nat i"
  from assms have n: "1000 \<le> ?n" "?n < 10000" by simp_all
  then have "\<not> ?n < 10" "\<not> ?n div 10 < 10" "\<not> ?n div 10 div 10 < 10" "?n div 10 div 10 div 10 < 10"
    by simp_all
  then have "length (digits ?n) = 4"
    by (simp add: digits_length [of ?n] digits_length [of "?n div 10"]
        digits_length [of "?n div 10 div 10"] digits_length [of "?n div 10 div 10 div 10"])
  with assms show ?thesis
    by (simp add: show_int_def)
qed

lemma replacements_w1:
  "replacements w1 =
     [(''{{CURRENT_URL}}'', ''https://www.recostseg.com/faq/''),
      (''{{PAGE_TITLE}}'', ''FAQ''),
      (''{{META_DESCRIPTION}}'', []),
      (''{{OG_IMAGE}}'', []),
      (''{{PUBLISHED_DATE}}'', ''2026-11-02T10:00:00.000Z''),
      (''{{MODIFIED_DATE}}'', ''2026-11-02T10:00:00.000Z''),
      (''{{AUTHOR}}'', ''Ana''),
      (''{{LANGUAGE}}'', ''en''),
      (''{{YEAR}}'', ''2026'')]"
  by (simp add: replacements_def getPageMetadata_def w1_def querySelector_def elements_def
      selects_def content_or_def show_int_def digits.simps digit_char_def)

lemma token_likeE:
  assumes "token_like k"
  obtains k' where "k = CHR ''{'' # CHR ''{'' # k'" "\<forall>c \<in> set k. plain c"
proof -
  from assms have t: "take 2 k = ''{{''" and p: "\<forall>c \<in> set k. plain c"
    by (simp_all add: token_like_def)
  from t obtain k' where "k = CHR ''{'' # CHR ''{'' # k'"
    by (cases k; cases "tl k") (auto simp: numeral_2_eq_2)
  with p that show ?thesis by blast
qed

lemma starts_with_simps:
  "starts_with s [] = True"
  "starts_with [] (a # k) = False"
  "starts_with (c # s) (a # k) = (c = a \<and> starts_with s k)"
  by (auto simp: starts_with_def)

lemma literal_scan_Nil: "literal_scan k v [] = []"
  by (subst literal_scan.simps) simp

lemma literal_scan_other:
  assumes "k = a # k'" "c \<noteq> a"
  shows "literal_scan k v (c # t) = c # literal_scan k v t"
  using assms by (subst literal_scan.simps) (simp add: starts_with_simps)

lemma literal_scan_others:
  assumes "k = a # k'" "\<forall>c \<in> set x. c \<noteq> a"
  shows "literal_scan k v (x @ t) = x @ literal_scan k v t"
  using assms(2) by (induction x) (simp_all add: literal_scan_other [OF assms(1)])

lemma literal_scan_brace:
  assumes "k = CHR ''{'' # CHR ''{'' # k'" "t = [] \<or> hd t \<noteq> CHR ''{''"
  shows "literal_scan k v (CHR ''{'' # t) = CHR ''{'' # literal_scan k v t"
  using assms by (subst literal_scan.simps) (cases t; simp add: starts_with_simps)

lemma literal_scan_match:
  assumes "k \<noteq> []"
  shows "literal_scan k v (k @ t) = v @ literal_scan k v t"
  using assms by (subst literal_scan.simps) (simp add: starts_with_def)

lemma literal_scan_step:
  assumes "\<not> starts_with (c # t) k"
  shows "literal_scan k v (c # t) = c # literal_scan k v t"
  using assms by (subst literal_scan.simps) simp

lemma escape_char_plain: "plain c \<Longrightarrow> escape_char c = [c]"
  by (auto simp: escape_char_def plain_def)

lemma escape_char_first:
  "escape_char c = [c] \<or> (\<exists>r. escape_char c = backslash # r)"
  by (auto simp: escape_char_def)

lemma escape_char_no_brace:
  "c \<noteq> CHR ''{'' \<Longrightarrow> \<forall>x \<in> set (escape_char c). x \<noteq> CHR ''{''"
proof -
  assume c: "c \<noteq> CHR ''{''"
  have "hex_digit m \<noteq> CHR ''{''" if "m < 16" for m
  proof
    assume e: "hex_digit m = CHR ''{''"
    have "hex_val CHR ''{'' = None" by (simp add: hex_val_def)
    with hex_val_hex_digit [OF that] e show False by simp
  qed
  then have "hex_digit ((of_char c :: nat) mod 16) \<noteq> CHR ''{''"
    "(of_char c :: nat) < 32 \<Longrightarrow> hex_digit ((of_char c :: nat) div 16) \<noteq> CHR ''{''"
    by simp_all
  then show ?thesis
    using c by (auto simp: escape_char_def dquote_def backslash_def)
qed

lemma starts_with_escaped:
  assumes "\<forall>c \<in> set k. plain c"
  shows "starts_with (concat (map escape_char s) @ dquote # y) k = starts_with s k"
  using assms
proof (induction k arbitrary: s)
  case Nil
  show ?case by (simp add: starts_with_simps)
next
  case (Cons a k)
  then have a: "plain a" by simp
  show ?case
  proof (cases s)
    case Nil
    with a show ?thesis
      by (auto simp: starts_with_simps plain_def)
  next
    case (Cons c s')
    from escape_char_first [of c] show ?thesis
    proof
      assume "escape_char c = [c]"
      with Cons Cons.IH [of s'] Cons.prems show ?thesis
        by (simp add: starts_with_simps)
    next
      assume "\<exists>r. escape_char c = backslash # r"
      then obtain r where r: "escape_char c = backslash # r" by blast
      have "c \<noteq> a"
      proof
        assume "c = a"
        with a have "escape_char c = [c]" by (simp add: escape_char_plain)
        with r a \<open>c = a\<close> show False by (simp add: plain_def)
      qed
      with r Cons a show ?thesis
        by (auto simp: starts_with_simps plain_def)
    qed
  qed
qed

lemma scan_escaped:
  assumes k: "token_like k" and v: "\<forall>c \<in> set v. plain c"
  shows "literal_scan k v (concat (map escape_char s) @ dquote # y) =
    concat (map escape_char (literal_scan k v s)) @ dquote # literal_scan k v y"
proof -
  from k obtain k' where kk: "k = CHR ''{'' # CHR ''{'' # k'" and kp: "\<forall>c \<in> set k. plain c"
    by (rule token_likeE)
  have ne: "k \<noteq> []" using kk by simp
  have ek: "concat (map escape_char k) = k"
    using kp by (rule escape_plain)
  have ev: "concat (map escape_char v) = v"
    using v by (rule escape_plain)
  show ?thesis
  proof (induction s rule: length_induct)
    case (1 s)
    show ?case
    proof (cases s)
      case Nil
      have "dquote \<noteq> CHR ''{''" by (simp add: dquote_def)
      with kk have "literal_scan k v (dquote # y) = dquote # literal_scan k v y"
        by (intro literal_scan_other) auto
      with Nil show ?thesis
        by (simp add: literal_scan_Nil)
    next
      case (Cons c s')
      show ?thesis
      proof (cases "starts_with s k")
        case True
        then have s: "s = k @ drop (length k) s"
          by (metis append_take_drop_id starts_with_def)
        let ?r = "drop (length k) s"
        from ne have "length ?r < length s"
          using Cons by (cases k) simp_all
        with 1 have ih: "literal_scan k v (concat (map escape_char ?r) @ dquote # y) =
            concat (map escape_char (literal_scan k v ?r)) @ dquote # literal_scan k v y"
          by blast
        have "concat (map escape_char s) = k @ concat (map escape_char ?r)"
          by (subst s) (simp add: ek)
        then have "literal_scan k v (concat (map escape_char s) @ dquote # y) =
            v @ literal_scan k v (concat (map escape_char ?r) @ dquote # y)"
          using literal_scan_match [OF ne, of v "concat (map escape_char ?r) @ dquote # y"]
          by simp
        moreover have "literal_scan k v s = v @ literal_scan k v ?r"
          using literal_scan_match [OF ne, of v ?r] s by simp
        ultimately show ?thesis
          using ih by (simp add: ev)
      next
        case False
        with Cons have st: "literal_scan k v s = c # literal_scan k v s'"
          by (simp add: literal_scan_step)
        from 1 Cons have ih: "literal_scan k v (concat (map escape_char s') @ dquote # y) =
            concat (map escape_char (literal_scan k v s')) @ dquote # literal_scan k v y"
          by simp
        have "literal_scan k v (escape_char c @ concat (map escape_char s') @ dquote # y) =
            escape_char c @ literal_scan k v (concat (map escape_char s') @ dquote # y)"
        proof (cases "c = CHR ''{''")
          case True
          then have e: "escape_char c = [c]"
            by (simp add: escape_char_def dquote_def backslash_def)
          from False have "\<not> starts_with (concat (map escape_char s) @ dquote # y) k"
            using starts_with_escaped [OF kp] by simp
          with Cons e show ?thesis
            by (simp add: literal_scan_step)
        next
          case False
          then have "\<forall>x \<in> set (escape_char c). x \<noteq> CHR ''{''"
            by (rule escape_char_no_brace)
          with kk show ?thesis
            by (intro literal_scan_others) auto
        qed
        with Cons st ih show ?thesis
          by simp
      qed
    qed
  qed
qed

lemma scan_quote:
  assumes "token_like k" "\<forall>c \<in> set v. plain c"
  shows "literal_scan k v (quote s @ y) = quote (literal_scan k v s) @ literal_scan k v y"
proof -
  from assms(1) obtain k' where kk: "k = CHR ''{'' # CHR ''{'' # k'"
    by (rule token_likeE)
  have "dquote \<noteq> CHR ''{''" by (simp add: dquote_def)
  with kk have "literal_scan k v (dquote # t) = dquote # literal_scan k v t" for t
    by (intro literal_scan_other) auto
  then show ?thesis
    using scan_escaped [OF assms, of s y] by (simp add: quote_def)
qed

lemma digits_no_brace: "\<forall>c \<in> set (digits n). c \<noteq> CHR ''{''"
proof (induction n rule: digits.induct)
  case (1 n)
  have d: "digit_char m \<noteq> CHR ''{''" if "m < 10" for m
    using digit_char_cases [OF that] by auto
  show ?case
  proof (cases "n < 10")
    case True
    then show ?thesis
      by (subst digits.simps) (simp add: d)
  next
    case False
    with 1 have "\<forall>c \<in> set (digits (n div 10)). c \<noteq> CHR ''{''" by simp
    then show ?thesis using False
      by (subst digits.simps) (simp add: d)
  qed
qed

lemma show_int_no_brace: "\<forall>c \<in> set (show_int i). c \<noteq> CHR ''{''"
  using digits_no_brace by (simp add: show_int_def)

lemma fraction_no_brace: "\<forall>c \<in> set (fraction f n). c \<noteq> CHR ''{''"
proof (induction f arbitrary: n)
  case 0
  show ?case by simp
next
  case (Suc f)
  have "digit_char (n mod 10) \<noteq> CHR ''{''"
    using digit_char_cases [of "n mod 10"] by auto
  with Suc [of "n div 10"] show ?case
    by simp
qed

lemma show_number_no_brace: "\<forall>c \<in> set (show_number m f). c \<noteq> CHR ''{''"
proof (cases "strip_zeros m f")
  case (Pair n g)
  show ?thesis
  proof (cases g)
    case 0
    with Pair show ?thesis
      by (simp add: show_number_def show_int_no_brace)
  next
    case (Suc h)
    have a: "\<forall>c \<in> set (if n < 0 then ''-'' else []). c \<noteq> CHR ''{''"
      and b: "\<forall>c \<in> set ''.''. c \<noteq> CHR ''{''"
      by simp_all
    have "\<forall>c \<in> set (show_decimal n (Suc h)). c \<noteq> CHR ''{''"
      unfolding show_decimal_def set_append ball_Un
      by (intro conjI a b digits_no_brace fraction_no_brace)
    with Pair Suc show ?thesis
      by (simp add: show_number_def)
  qed
qed

lemma scan_join:
  assumes kk: "k = CHR ''{'' # k'"
    and parts: "\<forall>x \<in> set xs. \<forall>y. literal_scan k v (f x @ y) = g x @ literal_scan k v y"
    and c: "c \<noteq> CHR ''{''"
  shows "literal_scan k v (join '','' (map f xs) @ c # y) =
    join '','' (map g xs) @ c # literal_scan k v y"
  using parts
proof (induction xs)
  case Nil
  from kk c show ?case
    by (simp add: literal_scan_other)
next
  case (Cons x xs)
  have comma: "literal_scan k v (CHR '','' # t) = CHR '','' # literal_scan k v t" for t
    using kk by (intro literal_scan_other) auto
  show ?case
  proof (cases xs)
    case Nil
    with Cons.prems kk c show ?thesis
      by (simp add: literal_scan_other)
  next
    case (Cons x' xs')
    with Cons.IH Cons.prems
    have "literal_scan k v (join '','' (map f xs) @ c # y) =
        join '','' (map g xs) @ c # literal_scan k v y"
      by simp
    moreover from Cons.prems
    have "literal_scan k v (f x @ CHR '','' # join '','' (map f xs) @ c # y) =
        g x @ literal_scan k v (CHR '','' # join '','' (map f xs) @ c # y)"
      by simp
    ultimately show ?thesis
      using Cons by (simp add: comma)
  qed
qed

lemma scan_serialize:
  assumes k: "token_like k" and v: "\<forall>c \<in> set v. plain c"
  shows "literal_scan k v (serialize [] [] d @ y) =
    serialize [] [] (map_strings (literal_scan k v) d) @ literal_scan k v y"
proof -
  from k obtain k' where kk: "k = CHR ''{'' # CHR ''{'' # k'"
    by (rule token_likeE)
  have other: "literal_scan k v (x @ t) = x @ literal_scan k v t"
    if "\<forall>c \<in> set x. c \<noteq> CHR ''{''" for x t
    using kk that by (intro literal_scan_others) auto
  show ?thesis
  proof (induction d arbitrary: y)
    case JNull
    show ?case using other [of "''null''"] by simp
  next
    case (JBool b)
    show ?case using other [of "''true''"] other [of "''false''"] by simp
  next
    case (JNum n)
    show ?case using other [OF show_int_no_brace] by simp
  next
    case (JDec m f)
    show ?case using other [OF show_number_no_brace] by simp
  next
    case (JStr s)
    show ?case using scan_quote [OF k v] by simp
  next
    case (JArr xs)
    show ?case
    proof (cases "xs = []")
      case True
      with other [of "''[]''"] show ?thesis by (simp add: wrap_def)
    next
      case False
      have "literal_scan k v (join '','' (map (serialize [] []) xs) @ CHR '']'' # y) =
          join '','' (map (\<lambda>x. serialize [] [] (map_strings (literal_scan k v) x)) xs) @
          CHR '']'' # literal_scan k v y"
        using JArr by (intro scan_join [where k' = "CHR ''{'' # k'"]) (simp_all add: kk)
      with False other [of "''[''"] show ?thesis
        by (simp add: wrap_def comp_def)
    qed
  next
    case (JObj kvs)
    let ?f = "\<lambda>(k0, v0). quote k0 @ '':'' @ serialize [] [] v0"
    let ?g = "\<lambda>(k0, v0). quote (literal_scan k v k0) @ '':'' @
        serialize [] [] (map_strings (literal_scan k v) v0)"
    show ?case
    proof (cases "kvs = []")
      case True
      have "literal_scan k v (CHR ''{'' # CHR ''}'' # y) = CHR ''{'' # literal_scan k v (CHR ''}'' # y)"
        using kk by (intro literal_scan_brace) simp_all
      with True other [of "''}''"] show ?thesis
        by (simp add: wrap_def)
    next
      case False
      have m: "literal_scan k v (?f kv @ t) = ?g kv @ literal_scan k v t"
        if "kv \<in> set kvs" for kv t
      proof -
        obtain k0 v0 where kv: "kv = (k0, v0)" by (cases kv)
        with that JObj have "literal_scan k v (serialize [] [] v0 @ t) =
            serialize [] [] (map_strings (literal_scan k v) v0) @ literal_scan k v t"
          by fastforce
        with kv scan_quote [OF k v, of k0] other [of "'':''"] show ?thesis
          by simp
      qed
      have j: "literal_scan k v (join '','' (map ?f kvs) @ CHR ''}'' # y) =
          join '','' (map ?g kvs) @ CHR ''}'' # literal_scan k v y"
        using m by (intro scan_join [where k' = "CHR ''{'' # k'"]) (simp_all add: kk)
      from False obtain kv rest where kvs: "kvs = kv # rest"
        by (cases kvs) auto
      obtain k0 v0 where kv: "kv = (k0, v0)" by (cases kv)
      have "hd (join '','' (map ?f kvs) @ CHR ''}'' # y) = dquote"
        unfolding kvs kv by (cases rest) (simp_all add: quote_def)
      then have "hd (join '','' (map ?f kvs) @ CHR ''}'' # y) \<noteq> CHR ''{''"
        by (simp add: dquote_def)
      then have "literal_scan k v (CHR ''{'' # join '','' (map ?f kvs) @ CHR ''}'' # y) =
          CHR ''{'' # literal_scan k v (join '','' (map ?f kvs) @ CHR ''}'' # y)"
        using kk by (intro literal_scan_brace) simp_all
      with False j show ?thesis
        by (simp add: wrap_def comp_def case_prod_unfold)
    qed
  qed
qed

lemma map_strings_comp: "map_strings g (map_strings f d) = map_strings (\<lambda>s. g (f s)) d"
  by (induction d) auto

lemma str_includes_iff: "str_includes s k \<longleftrightarrow> (\<exists>a b. s = a @ k @ b)"
proof (induction s)
  case Nil
  show ?case by auto
next
  case (Cons c s)
  have st: "starts_with (c # s) k \<longleftrightarrow> (\<exists>b. c # s = k @ b)"
    unfolding starts_with_def by (metis append_eq_conv_conj append_take_drop_id)
  show ?case
  proof
    assume "str_includes (c # s) k"
    then consider "starts_with (c # s) k" | "str_includes s k"
      by auto
    then show "\<exists>a b. c # s = a @ k @ b"
    proof cases
      case 1
      with st obtain b where "c # s = [] @ k @ b" by auto
      then show ?thesis by blast
    next
      case 2
      with Cons obtain a b where "s = a @ k @ b" by blast
      then have "c # s = (c # a) @ k @ b" by simp
      then show ?thesis by blast
    qed
  next
    assume "\<exists>a b. c # s = a @ k @ b"
    then obtain a b where ab: "c # s = a @ k @ b" by blast
    show "str_includes (c # s) k"
    proof (cases a)
      case Nil
      with ab have "\<exists>b. c # s = k @ b" by auto
      with st have "starts_with (c # s) k" by blast
      then show ?thesis by simp
    next
      case (Cons x a')
      with ab have "s = a' @ k @ b" by simp
      with Cons.IH show ?thesis by auto
    qed
  qed
qed

lemma str_includes_part:
  assumes "str_includes x k" "s = a @ x @ b"
  shows "str_includes s k"
proof -
  from assms(1) obtain p q where "x = p @ k @ q"
    by (auto simp: str_includes_iff)
  with assms(2) have "s = (a @ p) @ k @ (q @ b)" by simp
  then show ?thesis
    unfolding str_includes_iff by blast
qed

lemma str_includes_quote:
  assumes "\<forall>c \<in> set k. plain c" "str_includes s k"
  shows "str_includes (quote s) k"
proof -
  from assms(2) obtain a b where "s = a @ k @ b"
    by (auto simp: str_includes_iff)
  then have "quote s = (dquote # concat (map escape_char a)) @ k @
      (concat (map escape_char b) @ [dquote])"
    by (simp add: quote_def escape_plain [OF assms(1)])
  then show ?thesis
    unfolding str_includes_iff by blast
qed

lemma part_of_join: "x \<in> set parts \<Longrightarrow> \<exists>a b. join sep parts = a @ x @ b"
proof (induction sep parts rule: join.induct)
  case (1 sep)
  then show ?case by simp
next
  case (2 sep y)
  then have "join sep [y] = [] @ x @ []" by simp
  then show ?case by blast
next
  case (3 sep y z zs)
  show ?case
  proof (cases "x = y")
    case True
    then have "join sep (y # z # zs) = [] @ x @ (sep @ join sep (z # zs))" by simp
    then show ?thesis by blast
  next
    case False
    with 3 obtain a b where "join sep (z # zs) = a @ x @ b" by auto
    then have "join sep (y # z # zs) = (y @ sep @ a) @ x @ b" by simp
    then show ?thesis by blast
  qed
qed

lemma part_of_wrap: "x \<in> set parts \<Longrightarrow> \<exists>a b. wrap [] [] l r parts = a @ x @ b"
proof -
  assume x: "x \<in> set parts"
  then obtain a b where "join '','' parts = a @ x @ b"
    using part_of_join by blast
  with x have "wrap [] [] l r parts = (l @ a) @ x @ (b @ r)"
    by (auto simp: wrap_def)
  then show ?thesis by blast
qed

lemma absent_map_strings:
  assumes k: "\<forall>c \<in> set k. plain c"
  shows "\<not> str_includes (serialize [] [] d) k \<Longrightarrow> map_strings (literal_scan k v) d = d"
proof (induction d)
  case (JStr s)
  then have "\<not> str_includes s k"
    using str_includes_quote [OF k] by auto
  then show ?case
    by (simp add: literal_scan_absent)
next
  case (JArr xs)
  have "map_strings (literal_scan k v) x = x" if x: "x \<in> set xs" for x
  proof -
    from x have "serialize [] [] x \<in> set (map (serialize [] []) xs)"
      by simp
    then obtain a b where
      "wrap [] [] ''['' '']'' (map (serialize [] []) xs) = a @ serialize [] [] x @ b"
      using part_of_wrap by blast
    with JArr(2) have "\<not> str_includes (serialize [] [] x) k"
      using str_includes_part by fastforce
    with x JArr(1) show ?thesis by blast
  qed
  then show ?case
    by (simp add: map_idI)
next
  case (JObj kvs)
  let ?f = "\<lambda>(k0, v0). quote k0 @ '':'' @ serialize [] [] v0"
  have "literal_scan k v k0 = k0 \<and> map_strings (literal_scan k v) v0 = v0"
    if kv: "(k0, v0) \<in> set kvs" for k0 v0
  proof -
    from kv have "?f (k0, v0) \<in> ?f ` set kvs"
      by (rule imageI)
    then have "?f (k0, v0) \<in> set (map ?f kvs)"
      by (simp only: set_map)
    then obtain a b where w: "wrap [] [] ''{'' ''}'' (map ?f kvs) = a @ ?f (k0, v0) @ b"
      using part_of_wrap by blast
    from JObj(2) have n: "\<not> str_includes (wrap [] [] ''{'' ''}'' (map ?f kvs)) k"
      by simp
    have "\<not> str_includes (quote k0) k"
    proof
      assume "str_includes (quote k0) k"
      moreover from w have "wrap [] [] ''{'' ''}'' (map ?f kvs) =
          a @ quote k0 @ ('':'' @ serialize [] [] v0 @ b)"
        by simp
      ultimately show False
        using n str_includes_part by blast
    qed
    then have "\<not> str_includes k0 k"
      using str_includes_quote [OF k] by auto
    moreover have "\<not> str_includes (serialize [] [] v0) k"
    proof
      assume "str_includes (serialize [] [] v0) k"
      moreover from w have "wrap [] [] ''{'' ''}'' (map ?f kvs) =
          (a @ quote k0 @ '':'') @ serialize [] [] v0 @ b"
        by simp
      ultimately show False
        using n str_includes_part by blast
    qed
    moreover have "v0 \<in> Basic_BNFs.snds (k0, v0)"
      by simp
    ultimately show ?thesis
      using JObj(1) [OF kv] by (simp add: literal_scan_absent)
  qed
  then have "map (\<lambda>(k0, v0). (literal_scan k v k0, map_strings (literal_scan k v) v0)) kvs = kvs"
    by (intro map_idI) auto
  then show ?case by simp
qed simp_all

lemma map_strings_id: "map_strings (\<lambda>s. s) d = d"
  by (induction d) (auto intro: map_idI)

lemma foldl_scan_serialize:
  assumes "\<forall>(k, v) \<in> set rs. token_like k"
    and "substituted plain_value rs (serialize [] [] d)"
  shows "foldl (\<lambda>s (key, val). replace s key val) (serialize [] [] d) rs =
    serialize [] [] (map_strings (\<lambda>s. foldl (\<lambda>s (key, val). literal_scan key val s) s rs) d)"
  using assms
proof (induction rs arbitrary: d)
  case Nil
  show ?case by (simp add: map_strings_id)
next
  case (Cons r rs)
  obtain k v where r: "r = (k, v)" by (cases r)
  with Cons.prems have k: "token_like k" by auto
  then have kp: "\<forall>c \<in> set k. plain c"
    by (simp add: token_like_def)
  let ?d = "map_strings (literal_scan k v) d"
  have step: "replace (serialize [] [] d) k v = serialize [] [] ?d"
  proof (cases "str_includes (serialize [] [] d) k")
    case True
    with Cons.prems(2) r have p: "\<not> has_pattern v" "\<forall>c \<in> set v. plain c"
      by (simp_all add: plain_value_def list_all_iff)
    from p(1) have "replace (serialize [] [] d) k v = literal_scan k v (serialize [] [] d)"
      by (simp add: replace_def scan_literal)
    also have "\<dots> = serialize [] [] ?d"
      using scan_serialize [OF k p(2), of d "[]"] by (simp add: literal_scan_Nil)
    finally show ?thesis .
  next
    case False
    then have "?d = d"
      using absent_map_strings [OF kp] by blast
    with False show ?thesis
      by (simp add: replace_absent)
  qed
  from Cons.prems r have "\<forall>(k, v) \<in> set rs. token_like k"
    and "substituted plain_value rs (serialize [] [] ?d)"
    by (simp_all add: step)
  then have "foldl (\<lambda>s (key, val). replace s key val) (serialize [] [] ?d) rs =
      serialize [] []
        (map_strings (\<lambda>s. foldl (\<lambda>s (key, val). literal_scan key val s) s rs) ?d)"
    by (rule Cons.IH)
  with r step show ?case
    by (simp add: map_strings_comp)
qed

lemma replacements_tokens: "\<forall>(key, val) \<in> set (replacements w). token_like key"
  by (simp add: replacements_def Let_def token_like_def plain_def dquote_def backslash_def)

lemma JSON_stringify_compact: "JSON_stringify d 0 = serialize [] [] d"
  by (simp add: JSON_stringify_def)

lemma processSchema_strings:
  assumes "substituted plain_value (replacements w) (JSON_stringify d 0)"
  shows "processSchema w d = Inr (canon (map_strings (substitute_literal w) d))"
proof -
  have "substitute w (JSON_stringify d 0) =
      serialize [] [] (map_strings (substitute_literal w) d)"
    unfolding JSON_stringify_compact substitute_def substitute_literal_def
    using replacements_tokens [of w] assms [unfolded JSON_stringify_compact]
    by (rule foldl_scan_serialize)
  also have "\<dots> = JSON_stringify (map_strings (substitute_literal w) d) 0"
    by (simp only: JSON_stringify_compact)
  finally show ?thesis
    by (simp only: processSchema_def JSON_parse_stringify)
qed

lemma substitute_literal_year: "substitute_literal w ''{{YEAR}}'' = show_int (fullYear w)"
  by (simp add: substitute_literal_def replacements_def Let_def literal_scan.simps
      starts_with_def)

text \<open>
  C3, amended. The processor serializes the document, applies the replacements of the
  fixed tokens in their order, each to the text that the one before produced, and reparses:
  it returns the reparsed document, or throws the \<^verbatim>\<open>SyntaxError\<close> of \<^verbatim>\<open>JSON.parse\<close> when the
  substituted text is not JSON. The value is the replacement template of
  \<^verbatim>\<open>String.prototype.replace\<close>: when no value that is substituted (its token occurs in the
  text at its turn) contains \<^verbatim>\<open>$$\<close>, \<^verbatim>\<open>$&\<close>, \<^verbatim>\<open>$`\<close> or \<^verbatim>\<open>$'\<close>, each replacement puts the value
  as raw literal text at every occurrence of its token. When moreover no such value has a
  character that a JSON string literal escapes, the processor returns the document in
  which every string, key or value, has had its tokens replaced, as \<^verbatim>\<open>JSON.parse\<close> rebuilds
  it. A string that is the year token becomes the decimal text of the local year, which has
  four digits for the years 1000 to 9999; so the document \<^verbatim>\<open>{"copyrightYear": "{{YEAR}}"}\<close>
  yields that field equal to the year, whatever the metadata. A token that does not occur
  in the text is a no-op, and a document in which no token occurs is returned as
  \<^verbatim>\<open>JSON.parse\<close> rebuilds it: unchanged, when it is written as \<^verbatim>\<open>JSON.parse\<close> writes it.
\<close>

theorem processSchema_substitution:
  "(substituted literal_value (replacements w) (JSON_stringify d 0) \<longrightarrow>
      processSchema w d = JSON_parse (substitute_literal w (JSON_stringify d 0))) \<and>
   (substituted plain_value (replacements w) (JSON_stringify d 0) \<longrightarrow>
      processSchema w d = Inr (canon (map_strings (substitute_literal w) d))) \<and>
   substitute_literal w ''{{YEAR}}'' = show_int (fullYear w) \<and>
   (1000 \<le> fullYear w \<and> fullYear w \<le> 9999 \<longrightarrow> length (show_int (fullYear w)) = 4) \<and>
   processSchema w (JObj [(''copyrightYear'', JStr ''{{YEAR}}'')]) =
      Inr (JObj [(''copyrightYear'', JStr (show_int (fullYear w)))]) \<and>
   (\<not> str_includes s key \<longrightarrow> replace s key val = s) \<and>
   ((\<forall>(key, val) \<in> set (replacements w). \<not> str_includes (JSON_stringify d 0) key) \<longrightarrow>
      processSchema w d = Inr (canon d)) \<and>
   (normal d \<longrightarrow> canon d = d)"
proof (intro conjI impI)
  assume "substituted literal_value (replacements w) (JSON_stringify d 0)"
  then show "processSchema w d = JSON_parse (substitute_literal w (JSON_stringify d 0))"
    by (simp only: processSchema_def substitute_def substitute_literal_def foldl_replace_literal)
next
  assume "substituted plain_value (replacements w) (JSON_stringify d 0)"
  then show "processSchema w d = Inr (canon (map_strings (substitute_literal w) d))"
    by (rule processSchema_strings)
next
  show "substitute_literal w ''{{YEAR}}'' = show_int (fullYear w)"
    by (rule substitute_literal_year)
next
  assume "1000 \<le> fullYear w \<and> fullYear w \<le> 9999"
  then show "length (show_int (fullYear w)) = 4"
    by (simp add: four_digits)
next
  show "processSchema w (JObj [(''copyrightYear'', JStr ''{{YEAR}}'')]) =
      Inr (JObj [(''copyrightYear'', JStr (show_int (fullYear w)))])"
    by (rule processSchema_year)
next
  assume "\<not> str_includes s key"
  then show "replace s key val = s"
    by (rule replace_absent)
next
  assume "\<forall>(key, val) \<in> set (replacements w). \<not> str_includes (JSON_stringify d 0) key"
  then show "processSchema w d = Inr (canon d)"
    by (simp only: processSchema_def substitute_def foldl_replace_absent JSON_parse_stringify)
next
  assume "normal d"
  then show "canon d = d"
    by (rule canon_normal)
qed

text \<open>The theorem at the page \<open>w5\<close>, whose title \<^verbatim>\<open>Save $500 now\<close> has a dollar sign and is
  put into the document as it is, and at the page \<open>w1\<close>, with a document that holds a token
  and one that holds none.\<close>

theorem processSchema_substitution_witness:
  "processSchema w5 (JObj [(''name'', JStr ''{{PAGE_TITLE}}'')]) =
     JSON_parse (substitute_literal w5 (JSON_stringify (JObj [(''name'', JStr ''{{PAGE_TITLE}}'')]) 0)) \<and>
   processSchema w5 (JObj [(''name'', JStr ''{{PAGE_TITLE}}'')]) =
     Inr (JObj [(''name'', JStr ''Save $500 now'')]) \<and>
   processSchema w1 (JObj [(''name'', JStr ''{{PAGE_TITLE}}''), (''year'', JStr ''{{YEAR}}'')]) =
     Inr (JObj [(''name'', JStr ''FAQ''), (''year'', JStr ''2026'')]) \<and>
   length (show_int (fullYear w1)) = 4 \<and>
   replace ''FAQ'' ''{{YEAR}}'' ''2026'' = ''FAQ'' \<and>
   processSchema w1 (JObj [(''name'', JStr ''FAQ'')]) = Inr (JObj [(''name'', JStr ''FAQ'')])"
proof -
  let ?t = "JObj [(''name'', JStr ''{{PAGE_TITLE}}'')]"
  let ?d = "JObj [(''name'', JStr ''{{PAGE_TITLE}}''), (''year'', JStr ''{{YEAR}}'')]"
  let ?e = "JObj [(''name'', JStr ''FAQ'')]"
  have r5: "replacements w5 =
     [(''{{CURRENT_URL}}'', ''https://www.recostseg.com/post/save''),
      (''{{PAGE_TITLE}}'', ''Save $500 now''),
      (''{{META_DESCRIPTION}}'', []),
      (''{{OG_IMAGE}}'', []),
      (''{{PUBLISHED_DATE}}'', ''2026-01-01T02:00:00.000Z''),
      (''{{MODIFIED_DATE}}'', ''2026-01-01T02:00:00.000Z''),
      (''{{AUTHOR}}'', ''RE Cost Seg''),
      (''{{LANGUAGE}}'', ''en-US''),
      (''{{YEAR}}'', ''2026'')]"
    by (simp add: replacements_def getPageMetadata_def w2_def w5_def querySelector_def
        elements_def selects_def content_or_def show_int_def digits.simps digit_char_def)
  have p5: "substituted plain_value (replacements w5) (JSON_stringify ?t 0)"
    unfolding r5 by code_simp
  have l5: "substituted literal_value (replacements w5) (JSON_stringify ?t 0)"
    unfolding r5 by code_simp
  have p1: "substituted plain_value (replacements w1) (JSON_stringify ?d 0)"
    unfolding replacements_w1 by code_simp
  have absent: "\<forall>(key, val) \<in> set (replacements w1). \<not> str_includes (JSON_stringify ?e 0) key"
    unfolding replacements_w1 by code_simp
  have n: "\<not> str_includes ''FAQ'' ''{{YEAR}}''"
    by (simp add: starts_with_def)
  have y: "1000 \<le> fullYear w1 \<and> fullYear w1 \<le> 9999"
    by (simp add: w1_def)
  have s5: "substitute_literal w5 ''name'' = ''name''"
    "substitute_literal w5 ''{{PAGE_TITLE}}'' = ''Save $500 now''"
    unfolding substitute_literal_def r5 by code_simp+
  have s1: "substitute_literal w1 ''name'' = ''name''"
    "substitute_literal w1 ''{{PAGE_TITLE}}'' = ''FAQ''"
    "substitute_literal w1 ''year'' = ''year''"
    "substitute_literal w1 ''{{YEAR}}'' = ''2026''"
    unfolding substitute_literal_def replacements_w1 by code_simp+
  have names: "\<not> array_index ''name''" "\<not> array_index ''year''"
    by (simp_all add: not_array_index digit_val_def)
  have m5: "canon (map_strings (substitute_literal w5) ?t) =
      JObj [(''name'', JStr ''Save $500 now'')]"
    by (simp add: s5 make_object_def property_order_names names)
  have m1: "canon (map_strings (substitute_literal w1) ?d) =
      JObj [(''name'', JStr ''FAQ''), (''year'', JStr ''2026'')]"
    by (simp add: s1 make_object_def property_order_names names)
  have u: "normal ?e"
    by (simp add: property_order_names names)
  note t5 = processSchema_substitution [of w5 ?t "''FAQ''" "''{{YEAR}}''" "''2026''"]
  note t = processSchema_substitution [of w1 ?d "''FAQ''" "''{{YEAR}}''" "''2026''"]
  note t' = processSchema_substitution [of w1 ?e "''FAQ''" "''{{YEAR}}''" "''2026''"]
  note a = t5 [THEN conjunct1, THEN mp, OF l5]
  note b5 = t5 [THEN conjunct2, THEN conjunct1, THEN mp, OF p5, unfolded m5]
  note b = t [THEN conjunct2, THEN conjunct1, THEN mp, OF p1, unfolded m1]
  note c = t [THEN conjunct2, THEN conjunct2, THEN conjunct2, THEN conjunct1, THEN mp, OF y]
  note r = t [THEN conjunct2, THEN conjunct2, THEN conjunct2, THEN conjunct2, THEN conjunct2,
      THEN conjunct1, THEN mp, OF n]
  note e1 = t' [THEN conjunct2, THEN conjunct2, THEN conjunct2, THEN conjunct2, THEN conjunct2,
      THEN conjunct2, THEN conjunct1, THEN mp, OF absent]
  note e2 = t' [THEN conjunct2, THEN conjunct2, THEN conjunct2, THEN conjunct2, THEN conjunct2,
      THEN conjunct2, THEN conjunct2, THEN mp, OF u]
  show ?thesis
    by (intro conjI a b5 b c r e1 [unfolded e2])
qed

text \<open>With the title \<^verbatim>\<open>Save $$ now\<close> the field becomes \<^verbatim>\<open>Save $ now\<close>, not the title: in
  the replacement text of \<^verbatim>\<open>String.prototype.replace\<close>, \<^verbatim>\<open>$$\<close> stands for one dollar sign.
  With a double quote in the title the substituted text is not JSON and the processor
  throws instead of returning a document.\<close>

theorem processSchema_dollar_counterexample:
  "title w2 = ''Save $$ now'' \<and>
   processSchema w2 (JObj [(''name'', JStr ''{{PAGE_TITLE}}'')]) =
     Inr (JObj [(''name'', JStr ''Save $ now'')]) \<and>
   processSchema w2 (JObj [(''name'', JStr ''{{PAGE_TITLE}}'')]) \<noteq>
     Inr (JObj [(''name'', JStr (title w2))]) \<and>
   processSchema w3 (JObj [(''name'', JStr ''{{PAGE_TITLE}}'')]) = Inl SyntaxError"
proof -
  have r2: "replacements w2 =
     [(''{{CURRENT_URL}}'', ''https://www.recostseg.com/post/save''),
      (''{{PAGE_TITLE}}'', ''Save $$ now''),
      (''{{META_DESCRIPTION}}'', []),
      (''{{OG_IMAGE}}'', []),
      (''{{PUBLISHED_DATE}}'', ''2026-01-01T02:00:00.000Z''),
      (''{{MODIFIED_DATE}}'', ''2026-01-01T02:00:00.000Z''),
      (''{{AUTHOR}}'', ''RE Cost Seg''),
      (''{{LANGUAGE}}'', ''en-US''),
      (''{{YEAR}}'', ''2026'')]"
    by (simp add: replacements_def getPageMetadata_def w2_def querySelector_def elements_def
      selects_def content_or_def show_int_def digits.simps digit_char_def)
  have r3: "replacements w3 =
     [(''{{CURRENT_URL}}'', ''https://www.recostseg.com/post/save''),
      (''{{PAGE_TITLE}}'', ''The '' @ [dquote] @ ''Rapid'' @ [dquote] @ '' Report''),
      (''{{META_DESCRIPTION}}'', []),
      (''{{OG_IMAGE}}'', []),
      (''{{PUBLISHED_DATE}}'', ''2026-01-01T02:00:00.000Z''),
      (''{{MODIFIED_DATE}}'', ''2026-01-01T02:00:00.000Z''),
      (''{{AUTHOR}}'', ''RE Cost Seg''),
      (''{{LANGUAGE}}'', ''en-US''),
      (''{{YEAR}}'', ''2026'')]"
    by (simp add: replacements_def getPageMetadata_def w2_def w3_def querySelector_def elements_def
      selects_def content_or_def show_int_def digits.simps digit_char_def)
  have a: "processSchema w2 (JObj [(''name'', JStr ''{{PAGE_TITLE}}'')]) =
     Inr (JObj [(''name'', JStr ''Save $ now'')])"
    unfolding processSchema_def substitute_def r2 by code_simp
  have b: "processSchema w3 (JObj [(''name'', JStr ''{{PAGE_TITLE}}'')]) = Inl SyntaxError"
    unfolding processSchema_def substitute_def r3 by code_simp
  have t: "title w2 = ''Save $$ now''"
    by (simp add: w2_def)
  show ?thesis
    by (simp add: a b t)
qed


text \<open>
  C7, amended. The processor takes the document only and reads the page and the clock
  itself. Its result is determined by the document, the metadata record that
  \<^verbatim>\<open>getPageMetadata\<close> extracts and the local calendar year that it reads from the clock:
  two runs that agree on these give equal results, whatever else differs between the two
  pages and instants.
\<close>

theorem processSchema_inputs:
  "getPageMetadata w = getPageMetadata w' \<and> fullYear w = fullYear w' \<longrightarrow>
     processSchema w d = processSchema w' d"
proof
  assume "getPageMetadata w = getPageMetadata w' \<and> fullYear w = fullYear w'"
  then have "replacements w = replacements w'"
    by (simp add: replacements_def)
  then have "substitute w (JSON_stringify d 0) = substitute w' (JSON_stringify d 0)"
    by (simp only: substitute_def)
  then show "processSchema w d = processSchema w' d"
    by (simp only: processSchema_def)
qed

text \<open>The theorem at two different states of the window with the same metadata and
  year.\<close>

theorem processSchema_inputs_witness:
  "w2 \<noteq> w4 \<and> getPageMetadata w2 = getPageMetadata w4 \<and> fullYear w2 = fullYear w4 \<and>
   processSchema w2 (JObj [(''url'', JStr ''{{CURRENT_URL}}'')]) =
   processSchema w4 (JObj [(''url'', JStr ''{{CURRENT_URL}}'')])"
proof -
  have m: "getPageMetadata w2 = getPageMetadata w4"
    by (simp add: getPageMetadata_def w4_def w2_def querySelector_def elements_def selects_def)
  have y: "fullYear w2 = fullYear w4"
    by (simp add: w4_def)
  have n: "w2 \<noteq> w4"
  proof
    assume "w2 = w4"
    then have "body w2 = body w4" by simp
    then show False by (simp add: w2_def w4_def)
  qed
  from processSchema_inputs [of w2 w4 "JObj [(''url'', JStr ''{{CURRENT_URL}}'')]"] m y
  have e: "processSchema w2 (JObj [(''url'', JStr ''{{CURRENT_URL}}'')]) =
      processSchema w4 (JObj [(''url'', JStr ''{{CURRENT_URL}}'')])"
    by blast
  show ?thesis
    by (intro conjI n m y e)
qed

text \<open>Two runs on the same document with the same metadata record, the second where the
  local year is still 2025 (the instant is 02:00 UTC on 1 January 2026): the results
  differ, because the year comes from the clock and not from the metadata.\<close>

theorem processSchema_clock_counterexample:
  "getPageMetadata w2 = getPageMetadata (w2\<lparr>fullYear := 2025\<rparr>) \<and>
   processSchema w2 (JObj [(''copyrightYear'', JStr ''{{YEAR}}'')]) \<noteq>
   processSchema (w2\<lparr>fullYear := 2025\<rparr>) (JObj [(''copyrightYear'', JStr ''{{YEAR}}'')])"
proof -
  have m: "getPageMetadata w2 = getPageMetadata (w2\<lparr>fullYear := 2025\<rparr>)"
    by (simp add: getPageMetadata_def querySelector_def elements_def)
  have "show_int (fullYear w2) \<noteq> show_int (fullYear (w2\<lparr>fullYear := 2025\<rparr>))"
    by (auto simp: w2_def dest: show_int_inj)
  then have d: "processSchema w2 (JObj [(''copyrightYear'', JStr ''{{YEAR}}'')]) \<noteq>
      processSchema (w2\<lparr>fullYear := 2025\<rparr>) (JObj [(''copyrightYear'', JStr ''{{YEAR}}'')])"
    by (simp only: processSchema_year) simp
  show ?thesis
    by (intro conjI m d)
qed

text \<open>
  C9. When the page has no published-time meta element, the extracted published field is
  empty, and the replacement table gives \<^verbatim>\<open>{{PUBLISHED_DATE}}\<close> the modified timestamp, the
  ISO date-time of the run: the same value as \<^verbatim>\<open>{{MODIFIED_DATE}}\<close>, not the empty string.
\<close>

theorem published_falls_back:
  "querySelector w ''meta'' ''property'' ''article:published_time'' = None \<longrightarrow>
     published (getPageMetadata w) = [] \<and>
     modified (getPageMetadata w) = isoString w \<and>
     map_of (replacements w) ''{{PUBLISHED_DATE}}'' = Some (isoString w) \<and>
     map_of (replacements w) ''{{MODIFIED_DATE}}'' = Some (isoString w)"
  by (simp add: replacements_def getPageMetadata_def content_or_def)

text \<open>The theorem at the page \<open>w1\<close>, with a document that holds both tokens.\<close>

theorem published_falls_back_witness:
  "querySelector w1 ''meta'' ''property'' ''article:published_time'' = None \<and>
   map_of (replacements w1) ''{{PUBLISHED_DATE}}'' = Some ''2026-11-02T10:00:00.000Z'' \<and>
   map_of (replacements w1) ''{{MODIFIED_DATE}}'' = Some ''2026-11-02T10:00:00.000Z'' \<and>
   processSchema w1
     (JObj [(''datePublished'', JStr ''{{PUBLISHED_DATE}}''),
            (''dateModified'', JStr ''{{MODIFIED_DATE}}'')]) =
     Inr (JObj [(''datePublished'', JStr ''2026-11-02T10:00:00.000Z''),
                (''dateModified'', JStr ''2026-11-02T10:00:00.000Z'')])"
proof -
  have q: "querySelector w1 ''meta'' ''property'' ''article:published_time'' = None"
    by (simp add: querySelector_def elements_def selects_def w1_def)
  have i: "isoString w1 = ''2026-11-02T10:00:00.000Z''"
    by (simp add: w1_def)
  have p: "processSchema w1
     (JObj [(''datePublished'', JStr ''{{PUBLISHED_DATE}}''),
            (''dateModified'', JStr ''{{MODIFIED_DATE}}'')]) =
     Inr (JObj [(''datePublished'', JStr ''2026-11-02T10:00:00.000Z''),
                (''dateModified'', JStr ''2026-11-02T10:00:00.000Z'')])"
    unfolding processSchema_def substitute_def replacements_w1 by code_simp
  from published_falls_back [of w1] q
  have r: "map_of (replacements w1) ''{{PUBLISHED_DATE}}'' = Some (isoString w1)"
    "map_of (replacements w1) ''{{MODIFIED_DATE}}'' = Some (isoString w1)"
    by blast+
  show ?thesis
    by (intro conjI q r [unfolded i] p)
qed

end
